theory Spec2Isabelle
  imports Main "HOL-Library.AList"
begin

section \<open>Circuit breaker: services/shared/lib/circuitBreaker.mjs\<close>

text \<open>
  Times are milliseconds as \<open>Date.now()\<close> returns them. Every synchronous stretch of the
  source (the part of \<open>execute\<close> before the first \<open>await\<close>, and the continuation after it)
  reads the clock at one instant, which the model passes in as an argument.
\<close>

datatype State = CLOSED | OPEN | HALF_OPEN

text \<open>
  \<open>this.config\<close>. The source computes the error percentage in binary64,
  \<open>(errorCount / recentRequests.length) * 100 >= errorThresholdPercentage\<close>;
  the embedding takes the outcome of that test as the field \<open>errorThresholdExceeded\<close>,
  applied to \<open>errorCount\<close> and \<open>recentRequests.length\<close>, so that no theorem depends on
  rounding. \<open>resetTimeout\<close> is never read by the class and is left out.
\<close>

record breaker_config =
  threshold :: int
  timeout :: int
  volumeThreshold :: int
  errorThresholdExceeded :: "nat \<Rightarrow> nat \<Rightarrow> bool"
  rollingWindowSize :: int
  sleepWindow :: int

record request =
  timestamp :: int
  success :: bool

record breaker_metrics =
  totalRequests :: nat
  successfulRequests :: nat
  failedRequests :: nat
  rejectedRequests :: nat
  timeouts :: nat
  stateChanges :: "(State \<times> State \<times> int) list"

record breaker =
  state :: State
  failures :: nat
  successes :: nat
  lastFailureTime :: "int option"
  nextAttempt :: "int option"
  requestWindow :: "request list"
  metrics :: breaker_metrics

text \<open>The constructor's initial field values.\<close>

definition newBreaker :: breaker where
  "newBreaker =
     \<lparr>state = CLOSED, failures = 0, successes = 0, lastFailureTime = None,
      nextAttempt = None, requestWindow = [],
      metrics = \<lparr>totalRequests = 0, successfulRequests = 0, failedRequests = 0,
                 rejectedRequests = 0, timeouts = 0, stateChanges = []\<rparr>\<rparr>"

text \<open>
  What a caller of the breaker can be thrown: the breaker's own rejection of a call, the
  timeout, the operation's error with its message, and the two errors that the breaker's
  own code raises, \<open>TypeError\<close> when it reads \<open>error.message\<close> of \<open>null\<close> or \<open>undefined\<close>,
  \<open>RangeError\<close> when it formats an invalid date.
\<close>

datatype error = CircuitOpen | OperationTimeout | OperationError string | TypeError | RangeError

text \<open>\<open>new Date(t).toISOString()\<close> throws \<open>RangeError\<close> unless \<open>t\<close> is within 8.64e15 ms of
  the epoch.\<close>

definition validDate :: "int \<Rightarrow> bool" where
  "validDate t = (- 8640000000000000 \<le> t \<and> t \<le> 8640000000000000)"

text \<open>\<open>setState\<close>: the state it leaves. All its assignments come before the first
  expression that can throw, the date of the \<open>open\<close> event; the events themselves have no
  effect on the breaker.\<close>

definition setState :: "breaker_config \<Rightarrow> int \<Rightarrow> State \<Rightarrow> breaker \<Rightarrow> breaker" where
  "setState cfg now newState b =
     (let oldState = state b;
          b1 = b\<lparr>state := newState,
                 metrics := (metrics b)\<lparr>stateChanges :=
                   stateChanges (metrics b) @ [(oldState, newState, now)]\<rparr>\<rparr>
      in if newState = OPEN then b1\<lparr>nextAttempt := Some (now + sleepWindow cfg)\<rparr>
         else if newState = CLOSED then b1\<lparr>failures := 0, nextAttempt := None\<rparr>
         else b1)"

text \<open>What \<open>setState\<close> throws after its assignments: opening builds
  \<open>new Date(this.nextAttempt).toISOString()\<close> for the \<open>open\<close> event.\<close>

definition setStateThrows :: "breaker_config \<Rightarrow> int \<Rightarrow> State \<Rightarrow> error option" where
  "setStateThrows cfg now newState =
     (if newState = OPEN \<and> \<not> validDate (now + sleepWindow cfg) then Some RangeError else None)"

definition inWindow :: "breaker_config \<Rightarrow> int \<Rightarrow> request \<Rightarrow> bool" where
  "inWindow cfg now r = (now - timestamp r \<le> rollingWindowSize cfg)"

definition recordRequest :: "breaker_config \<Rightarrow> int \<Rightarrow> bool \<Rightarrow> breaker \<Rightarrow> breaker" where
  "recordRequest cfg now ok b =
     b\<lparr>requestWindow :=
         filter (inWindow cfg now) (requestWindow b @ [\<lparr>timestamp = now, success = ok\<rparr>])\<rparr>"

definition getRecentRequests :: "breaker_config \<Rightarrow> int \<Rightarrow> breaker \<Rightarrow> request list" where
  "getRecentRequests cfg now b = filter (inWindow cfg now) (requestWindow b)"

definition shouldOpen :: "breaker_config \<Rightarrow> int \<Rightarrow> breaker \<Rightarrow> bool" where
  "shouldOpen cfg now b =
     (if int (failures b) \<ge> threshold cfg then True
      else
        let recentRequests = getRecentRequests cfg now b
        in if int (length recentRequests) \<ge> volumeThreshold cfg
           then
             (let errorCount = length (filter (\<lambda>r. \<not> success r) recentRequests)
              in if errorThresholdExceeded cfg errorCount (length recentRequests)
                 then True else False)
           else False)"

text \<open>\<open>onSuccess\<close>; closing builds no date, so it does not throw.\<close>

definition onSuccess :: "breaker_config \<Rightarrow> int \<Rightarrow> breaker \<Rightarrow> breaker" where
  "onSuccess cfg now b =
     (let b1 = b\<lparr>failures := 0, successes := successes b + 1,
                 metrics := (metrics b)\<lparr>successfulRequests :=
                   successfulRequests (metrics b) + 1\<rparr>\<rparr>;
          b2 = recordRequest cfg now True b1
      in if state b2 = HALF_OPEN then setState cfg now CLOSED b2 else b2)"

text \<open>
  \<open>onFailure(error)\<close>. The argument is what \<open>error.message\<close> gives: \<open>None\<close> when \<open>error\<close> is
  \<open>null\<close> or \<open>undefined\<close>, so that reading the message throws. The source counts the
  failure and records the request, then builds the log entry with \<open>error.message\<close>, and
  only then tests the state: a \<open>TypeError\<close> thrown by the log entry leaves the method
  before \<open>shouldOpen\<close> and \<open>setState\<close>. The result is what the method throws, if
  anything, and the breaker it leaves.
\<close>

definition onFailure ::
  "breaker_config \<Rightarrow> int \<Rightarrow> string option \<Rightarrow> breaker \<Rightarrow> error option \<times> breaker" where
  "onFailure cfg now message b =
     (let b1 = b\<lparr>failures := failures b + 1, lastFailureTime := Some now,
                 metrics := (metrics b)\<lparr>failedRequests :=
                   failedRequests (metrics b) + 1\<rparr>\<rparr>;
          b2 = recordRequest cfg now False b1
      in case message of
           None \<Rightarrow> (Some TypeError, b2)
         | Some m \<Rightarrow>
             if state b2 = HALF_OPEN
             then (setStateThrows cfg now OPEN, setState cfg now OPEN b2)
             else if state b2 = CLOSED then
               (if shouldOpen cfg now b2
                then (setStateThrows cfg now OPEN, setState cfg now OPEN b2)
                else (None, b2))
             else (None, b2))"

text \<open>\<open>open\<close>, \<open>close\<close> and \<open>reset\<close>. \<open>open\<close> throws when \<open>setState\<close> does, after its
  assignments.\<close>

definition forceOpen :: "breaker_config \<Rightarrow> int \<Rightarrow> breaker \<Rightarrow> error option \<times> breaker" where
  "forceOpen cfg now b = (setStateThrows cfg now OPEN, setState cfg now OPEN b)"

definition forceClose :: "breaker_config \<Rightarrow> int \<Rightarrow> breaker \<Rightarrow> breaker" where
  "forceClose cfg now b = (setState cfg now CLOSED b)\<lparr>failures := 0, nextAttempt := None\<rparr>"

definition reset :: "breaker \<Rightarrow> breaker" where
  "reset b = b\<lparr>state := CLOSED, failures := 0, successes := 0, lastFailureTime := None,
               nextAttempt := None, requestWindow := []\<rparr>"

subsection \<open>Operations, fallbacks and the timeout race\<close>

text \<open>
  An operation is an effectful closure: invoked in a world \<open>'w\<close> it changes the world and
  then behaves in one of three ways: \<open>d\<close> milliseconds after the call it resolves with a
  value, or it throws or rejects, or it never settles. What it rejects with is known by
  its message, \<open>None\<close> when the value is \<open>null\<close> or \<open>undefined\<close>. The flag says whether the
  event loop is kept busy (by the operation itself, when it computes without yielding)
  from before the deadline of the timer until the operation settles, so that the timer
  callback cannot run in between.
\<close>

datatype 'a behaviour = Resolves nat bool 'a | Rejects nat bool "string option" | Never

type_synonym ('w, 'a) operation = "'w \<Rightarrow> 'a behaviour \<times> 'w"

text \<open>
  The second argument of \<open>execute\<close> is a \<open>fallback option\<close>: a falsy value (the
  default \<open>null\<close>) is \<open>None\<close>; a function is called, any other value is returned as it is.
\<close>

datatype ('w, 'a) fallback =
  FallbackValue 'a | FallbackFn "'w \<Rightarrow> (string option + 'a) \<times> 'w"

text \<open>\<open>executeFallback\<close>: its \<open>catch\<close> logs \<open>error.message\<close> and rethrows.\<close>

definition executeFallback :: "('w, 'a) fallback \<Rightarrow> 'w \<Rightarrow> (error + 'a) \<times> 'w" where
  "executeFallback fb w =
     (case fb of
        FallbackFn f \<Rightarrow>
          (case f w of (Inl None, w') \<Rightarrow> (Inl TypeError, w')
                     | (Inl (Some msg), w') \<Rightarrow> (Inl (OperationError msg), w')
                     | (Inr v, w') \<Rightarrow> (Inr v, w'))
      | FallbackValue v \<Rightarrow> (Inr v, w))"

text \<open>
  \<open>setTimeout(cb, this.config.timeout)\<close>: Node sets a delay below 1 or above
  2147483647 to 1.
\<close>

definition timerDelay :: "breaker_config \<Rightarrow> int" where
  "timerDelay cfg = (if timeout cfg < 1 \<or> timeout cfg > 2147483647 then 1 else timeout cfg)"

text \<open>
  The timer callback of \<open>executeWithTimeout\<close> runs before the operation settles: the
  operation has not settled when the delay has passed, and the event loop is free to run
  the callback. An operation that keeps the event loop busy past the deadline and then
  settles is not timed out: the continuation of \<open>await fn()\<close> runs first and clears the
  timer.
\<close>

fun timesOut :: "breaker_config \<Rightarrow> 'a behaviour \<Rightarrow> bool" where
  "timesOut cfg (Resolves d busy v) = (timerDelay cfg \<le> int d \<and> \<not> busy)"
| "timesOut cfg (Rejects d busy msg) = (timerDelay cfg \<le> int d \<and> \<not> busy)"
| "timesOut cfg Never = True"

text \<open>How the promise of \<open>executeWithTimeout\<close> is rejected: by the timer, or with what the
  operation threw.\<close>

datatype rejection = TimedOut | Thrown "string option"

text \<open>\<open>error.message\<close> of the rejection, and what \<open>throw error\<close> gives the caller. The
  timer rejects with an \<open>Error\<close> object.\<close>

fun rejectionMessage :: "rejection \<Rightarrow> string option" where
  "rejectionMessage TimedOut = Some ''Timeout''"
| "rejectionMessage (Thrown msg) = msg"

fun rejectionError :: "rejection \<Rightarrow> error" where
  "rejectionError TimedOut = OperationTimeout"
| "rejectionError (Thrown (Some msg)) = OperationError msg"
| "rejectionError (Thrown None) = TypeError"

text \<open>The timer callback: it counts \<open>metrics.timeouts\<close> and rejects the promise.\<close>

definition timerCallbackRejects ::
  "breaker_config \<Rightarrow> breaker \<Rightarrow> (rejection + 'a) \<times> int \<times> breaker" where
  "timerCallbackRejects cfg b =
     (Inl TimedOut, timerDelay cfg,
      b\<lparr>metrics := (metrics b)\<lparr>timeouts := timeouts (metrics b) + 1\<rparr>\<rparr>)"

text \<open>
  \<open>executeWithTimeout\<close>: the promise it returns settles once, with whichever of the timer
  callback and the operation's completion runs first; \<open>resolve\<close> and \<open>reject\<close> on a
  settled promise, and \<open>clearTimeout\<close> on a timer that has fired, do nothing. The timer
  callback runs first when the delay has passed before the operation settles and the
  event loop is free; a settlement that falls due in the same millisecond as the timer
  comes after it, the timer having been set before the operation was invoked. The
  result is the settlement the awaiting \<open>execute\<close> sees, the time it took, and the
  breaker.
\<close>

fun executeWithTimeout ::
  "breaker_config \<Rightarrow> 'a behaviour \<Rightarrow> breaker \<Rightarrow> (rejection + 'a) \<times> int \<times> breaker" where
  "executeWithTimeout cfg (Resolves d busy v) b =
     (if timerDelay cfg \<le> int d \<and> \<not> busy then timerCallbackRejects cfg b
      else (Inr v, int d, b))"
| "executeWithTimeout cfg (Rejects d busy msg) b =
     (if timerDelay cfg \<le> int d \<and> \<not> busy then timerCallbackRejects cfg b
      else (Inl (Thrown msg), int d, b))"
| "executeWithTimeout cfg Never b = timerCallbackRejects cfg b"

text \<open>
  \<open>execute\<close> up to its \<open>try\<close>: the request is counted, and an open circuit either lets the
  call through half-open or rejects it. \<open>Date.now() >= this.nextAttempt\<close> reads
  \<open>null\<close> as 0.
\<close>

datatype admission = Admitted | Refused

definition executeBegin :: "breaker_config \<Rightarrow> int \<Rightarrow> breaker \<Rightarrow> admission \<times> breaker" where
  "executeBegin cfg now b =
     (let b1 = b\<lparr>metrics := (metrics b)\<lparr>totalRequests := totalRequests (metrics b) + 1\<rparr>\<rparr>
      in if state b1 = OPEN then
           (if now \<ge> (case nextAttempt b1 of None \<Rightarrow> 0 | Some n \<Rightarrow> n)
            then (Admitted, setState cfg now HALF_OPEN b1)
            else (Refused,
                  b1\<lparr>metrics := (metrics b1)\<lparr>rejectedRequests :=
                       rejectedRequests (metrics b1) + 1\<rparr>\<rparr>))
         else (Admitted, b1))"

text \<open>
  The continuation of \<open>execute\<close> once the awaited promise has settled, at time \<open>now\<close>. In the
  \<open>catch\<close>, an exception of \<open>onFailure\<close> leaves \<open>execute\<close> at once, before the fallback.
\<close>

definition executeFinish ::
  "breaker_config \<Rightarrow> int \<Rightarrow> (rejection + 'a) \<Rightarrow> ('w, 'a) fallback option \<Rightarrow> breaker \<times> 'w
     \<Rightarrow> (error + 'a) \<times> breaker \<times> 'w" where
  "executeFinish cfg now settled fb bw =
     (case bw of (b, w) \<Rightarrow>
        (case settled of
           Inr v \<Rightarrow> (Inr v, onSuccess cfg now b, w)
         | Inl rj \<Rightarrow>
             (case onFailure cfg now (rejectionMessage rj) b of
                (Some e, b') \<Rightarrow> (Inl e, b', w)
              | (None, b') \<Rightarrow>
                  (case fb of
                     None \<Rightarrow> (Inl (rejectionError rj), b', w)
                   | Some f \<Rightarrow> (case executeFallback f w of (r, w') \<Rightarrow> (r, b', w'))))))"

text \<open>
  A whole call of \<open>execute\<close> that no other call interleaves with: entered at \<open>now\<close>, it
  finishes when the promise of \<open>executeWithTimeout\<close> settles. A refused call with a
  fallback first logs \<open>new Date(this.nextAttempt).toISOString()\<close>, which reads \<open>null\<close> as
  the epoch.
\<close>

definition execute ::
  "breaker_config \<Rightarrow> int \<Rightarrow> ('w, 'a) operation \<Rightarrow> ('w, 'a) fallback option \<Rightarrow> breaker \<times> 'w
     \<Rightarrow> (error + 'a) \<times> breaker \<times> 'w" where
  "execute cfg now fn fb bw =
     (case bw of (b, w) \<Rightarrow>
        (case executeBegin cfg now b of
           (Refused, b1) \<Rightarrow>
             (case fb of
                None \<Rightarrow> (Inl CircuitOpen, b1, w)
              | Some f \<Rightarrow>
                  if validDate (case nextAttempt b1 of None \<Rightarrow> 0 | Some n \<Rightarrow> n)
                  then (case executeFallback f w of (r, w') \<Rightarrow> (r, b1, w'))
                  else (Inl RangeError, b1, w))
         | (Admitted, b1) \<Rightarrow>
             (case fn w of (beh, w1) \<Rightarrow>
                (case executeWithTimeout cfg beh b1 of (settled, elapsed, b2) \<Rightarrow>
                   executeFinish cfg (now + elapsed) settled fb (b2, w1)))))"

subsection \<open>Sequences of breaker events\<close>

text \<open>
  Calls of \<open>execute\<close> overlap: while one call awaits its operation, others begin and
  finish. The breaker is therefore driven by events, each one synchronous stretch of the
  source: the entry of a call (\<open>Begin\<close>), the continuation of an admitted call after a
  success or after a failure with a given \<open>error.message\<close> (\<open>Succeed\<close>, \<open>Fail\<close>), the
  timer callback of \<open>executeWithTimeout\<close>, and the methods \<open>open\<close>, \<open>close\<close> and \<open>reset\<close>.
  The events may come in any order, which covers every interleaving of the source.
\<close>

datatype breaker_event =
  Begin int | Succeed int | Fail int "string option" | TimerFires
| ForceOpen int | ForceClose int | Reset

fun breakerStep :: "breaker_config \<Rightarrow> breaker \<Rightarrow> breaker_event \<Rightarrow> breaker" where
  "breakerStep cfg b (Begin t) = snd (executeBegin cfg t b)"
| "breakerStep cfg b (Succeed t) = onSuccess cfg t b"
| "breakerStep cfg b (Fail t msg) = snd (onFailure cfg t msg b)"
| "breakerStep cfg b TimerFires =
     b\<lparr>metrics := (metrics b)\<lparr>timeouts := timeouts (metrics b) + 1\<rparr>\<rparr>"
| "breakerStep cfg b (ForceOpen t) = snd (forceOpen cfg t b)"
| "breakerStep cfg b (ForceClose t) = forceClose cfg t b"
| "breakerStep cfg b Reset = reset b"

definition breakerAfter :: "breaker_config \<Rightarrow> breaker_event list \<Rightarrow> breaker" where
  "breakerAfter cfg evs = foldl (breakerStep cfg) newBreaker evs"

subsection \<open>Vocabulary of the breaker properties\<close>

text \<open>A behaviour that \<open>execute\<close> records as a failure whose message it can read: a
  timeout, or a rejection with a value other than \<open>null\<close> and \<open>undefined\<close>.\<close>

fun failsReadably :: "breaker_config \<Rightarrow> 'a behaviour \<Rightarrow> bool" where
  "failsReadably cfg (Resolves d busy v) = (timerDelay cfg \<le> int d \<and> \<not> busy)"
| "failsReadably cfg (Rejects d busy msg) = ((timerDelay cfg \<le> int d \<and> \<not> busy) \<or> msg \<noteq> None)"
| "failsReadably cfg Never = True"

text \<open>An operation that fails in this way whenever it is invoked.\<close>

definition failingOp :: "breaker_config \<Rightarrow> ('w, 'a) operation \<Rightarrow> bool" where
  "failingOp cfg fn = (\<forall>w. failsReadably cfg (fst (fn w)))"

text \<open>The breaker is open, its last state change was the opening, and \<open>nextAttempt\<close> is
  the time of that opening plus \<open>sleepWindow\<close>.\<close>

definition opened :: "breaker_config \<Rightarrow> breaker \<Rightarrow> bool" where
  "opened cfg b =
     (state b = OPEN \<and> stateChanges (metrics b) \<noteq> [] \<and>
      (case last (stateChanges (metrics b)) of
         (f, s, t) \<Rightarrow> s = OPEN \<and> nextAttempt b = Some (t + sleepWindow cfg)))"

text \<open>The time of the most recent change of state to OPEN that \<open>metrics.stateChanges\<close>
  records.\<close>

definition lastOpening :: "breaker \<Rightarrow> int option" where
  "lastOpening b =
     (let openings = filter (\<lambda>(f, s, t). s = OPEN) (stateChanges (metrics b))
      in if openings = [] then None else Some (snd (snd (last openings))))"

text \<open>Whether the state is CLOSED decides whether \<open>nextAttempt\<close> is null, and outside
  CLOSED it is the time of the last opening plus \<open>sleepWindow\<close>.\<close>

definition nextAttemptTracksOpening :: "breaker_config \<Rightarrow> breaker \<Rightarrow> bool" where
  "nextAttemptTracksOpening cfg b =
     (if state b = CLOSED then nextAttempt b = None
      else \<exists>t. lastOpening b = Some t \<and> nextAttempt b = Some (t + sleepWindow cfg))"

text \<open>Between \<open>b\<close> and \<open>b'\<close> exactly one failure, a timeout at time \<open>T\<close>, was recorded:
  one more failure in \<open>failures\<close> and \<open>metrics.failedRequests\<close>, one more timeout, one
  failed entry pushed onto the rolling window before it was pruned, and no success.\<close>

definition timeoutRecorded :: "breaker_config \<Rightarrow> int \<Rightarrow> breaker \<Rightarrow> breaker \<Rightarrow> bool" where
  "timeoutRecorded cfg T b b' =
     (failures b' = failures b + 1 \<and> successes b' = successes b
      \<and> failedRequests (metrics b') = failedRequests (metrics b) + 1
      \<and> successfulRequests (metrics b') = successfulRequests (metrics b)
      \<and> timeouts (metrics b') = timeouts (metrics b) + 1
      \<and> lastFailureTime b' = Some T
      \<and> requestWindow b' =
          filter (inWindow cfg T) (requestWindow b @ [\<lparr>timestamp = T, success = False\<rparr>]))"

subsection \<open>Example inputs for the breaker\<close>

text \<open>The constructor's defaults with \<open>threshold: 3\<close>; the percentage test is the exact
  one, \<open>errorCount / n * 100 >= 50\<close>.\<close>

definition exampleConfig :: breaker_config where
  "exampleConfig =
     \<lparr>threshold = 3, timeout = 60000, volumeThreshold = 10,
      errorThresholdExceeded = (\<lambda>e n. n \<noteq> 0 \<and> 50 * n \<le> 100 * e),
      rollingWindowSize = 10000, sleepWindow = 5000\<rparr>"

text \<open>The same with \<open>threshold: 1\<close>.\<close>

definition thresholdOne :: breaker_config where
  "thresholdOne = exampleConfig\<lparr>threshold := 1\<rparr>"

text \<open>Operations on a world that counts the invocations: one rejects with an \<open>Error\<close>
  after 5 ms, one rejects with \<open>undefined\<close> after 5 ms, one resolves after 5 ms, one
  resolves only after 70 s, one never settles; none of these keeps the event loop busy.
  The last computes for 70 s without yielding and then resolves.\<close>

definition boomOp :: "(nat, nat) operation" where
  "boomOp w = (Rejects 5 False (Some ''boom''), Suc w)"

definition undefinedOp :: "(nat, nat) operation" where
  "undefinedOp w = (Rejects 5 False None, Suc w)"

definition quickOp :: "(nat, nat) operation" where
  "quickOp w = (Resolves 5 False 42, Suc w)"

definition lateOp :: "(nat, nat) operation" where
  "lateOp w = (Resolves 70000 False 42, Suc w)"

definition neverOp :: "(nat, nat) operation" where
  "neverOp w = (Never, Suc w)"

definition blockingOp :: "(nat, nat) operation" where
  "blockingOp w = (Resolves 70000 True 42, Suc w)"

text \<open>The breaker and the world after three calls at times 0, 10 and 20 of an operation
  that rejects with an \<open>Error\<close>, and of one that rejects with \<open>undefined\<close>.\<close>

definition afterThreeFailures :: "breaker \<times> nat" where
  "afterThreeFailures =
     snd (execute exampleConfig 20 boomOp None
       (snd (execute exampleConfig 10 boomOp None
         (snd (execute exampleConfig 0 boomOp None (newBreaker, 0))))))"

definition afterThreeUndefined :: "breaker \<times> nat" where
  "afterThreeUndefined =
     snd (execute exampleConfig 20 undefinedOp None
       (snd (execute exampleConfig 10 undefinedOp None
         (snd (execute exampleConfig 0 undefinedOp None (newBreaker, 0))))))"

text \<open>The breaker and the world after two calls, at times 0 and 60001, of an operation
  that never settles, with \<open>threshold: 1\<close>.\<close>

definition afterTwoNever :: "breaker \<times> nat" where
  "afterTwoNever =
     snd (execute thresholdOne 60001 neverOp None
       (snd (execute thresholdOne 0 neverOp None (newBreaker, 0))))"

section \<open>Browser pool: services/shared/lib/browserPool.mjs\<close>

text \<open>
  The Playwright driver is outside the repository. Its objects (browser instances,
  contexts, pages) are references, each launch or creation giving a reference that was
  never given before; whether a driver call succeeds or throws, and what the driver
  reports, is an input of each pool operation. A driver call that never settles is outside
  the model.

  The methods of the pool are \<open>async\<close>: a call gives way at each \<open>await\<close>, and other calls
  run meanwhile. A definition named after a method (\<open>getAvailableBrowser\<close>, \<open>getPage\<close>,
  \<open>releasePage\<close>, \<open>performHealthCheck\<close>, \<open>initialize\<close>, \<open>shutdown\<close>) is a call of that
  method that no other call overlaps. What overlapping calls do to the handles is given
  by the synchronous stretches that the calls are made of, the handle events below.
\<close>

type_synonym ref = nat
type_synonym session_id = string

datatype driver_result = Done | Failed string

text \<open>\<open>this.config\<close>, the fields the pool logic reads. \<open>poolTimeout\<close> is \<open>config.timeout\<close>,
  the default timeout given to every context and to the launch.\<close>

record pool_config =
  maxBrowsers :: int
  maxPages :: int
  sessionTimeout :: int
  poolTimeout :: int

text \<open>A handle. Its id is the string \<open>browser-\<close> followed by \<open>Date.now()\<close> at the call of
  \<open>createBrowser\<close>, represented by that time. The fields that the pool writes and never
  reads (\<open>createdAt\<close>, \<open>lastHealthCheck\<close>, \<open>metrics\<close>) are left out.\<close>

record browser =
  browserId :: int
  inst :: ref
  contexts :: "ref list"
  isHealthy :: bool

record session =
  sessionId :: session_id
  sBrowser :: ref
  sContext :: ref
  sPage :: ref
  createdAt :: int
  lastActivity :: int

record pool_metrics =
  created :: nat
  destroyed :: nat
  crashed :: nat
  healthy :: nat
  unhealthy :: nat
  activePages :: int
  poolTotalRequests :: nat
  poolFailedRequests :: nat

text \<open>\<open>healthCheckTimer\<close>: \<open>null\<close>, the handle of a running interval, or a handle that
  \<open>clearInterval\<close> has cleared.\<close>

datatype timer = NoTimer | TimerRunning | TimerCleared

text \<open>The pool. \<open>browsers\<close> and \<open>sessions\<close> are JavaScript Maps, which iterate in insertion
  order: association lists, written with \<open>AList.update\<close> (\<open>set\<close>) and \<open>AList.delete\<close>.
  \<open>issued\<close> is not a field of the class: it counts the references the driver has given
  out, and the next one is \<open>issued\<close> itself.\<close>

record pool =
  browsers :: "(int \<times> browser) list"
  sessions :: "(session_id \<times> session) list"
  poolMetrics :: pool_metrics
  healthCheckTimer :: timer
  isShuttingDown :: bool
  issued :: nat

definition newPool :: pool where
  "newPool =
     \<lparr>browsers = [], sessions = [],
      poolMetrics = \<lparr>created = 0, destroyed = 0, crashed = 0, healthy = 0, unhealthy = 0,
                     activePages = 0, poolTotalRequests = 0, poolFailedRequests = 0\<rparr>,
      healthCheckTimer = NoTimer, isShuttingDown = False, issued = 0\<rparr>"

text \<open>The errors of the pool, named as the specification names them:
  \<open>Browser pool is shutting down\<close>, \<open>Timeout waiting for available browser\<close>, a failed
  launch, and a failed \<open>newContext\<close> or \<open>newPage\<close>. The source's
  \<open>No available browsers in pool\<close> needs \<open>getAvailableBrowser\<close> to return a falsy value,
  which none of its three returns does.\<close>

datatype pool_error =
  PoolShuttingDown | PoolExhausted | DriverLaunchFailed string | DriverFailed string

subsection \<open>Finding, creating and waiting for a browser\<close>

text \<open>The loop shared by \<open>getAvailableBrowser\<close> and \<open>waitForAvailableBrowser\<close>: the first
  handle, in insertion order, that is healthy and has fewer than \<open>maxPages\<close> contexts.\<close>

fun findAvailable :: "pool_config \<Rightarrow> (int \<times> browser) list \<Rightarrow> ref option" where
  "findAvailable cfg [] = None"
| "findAvailable cfg ((i, b) # bs) =
     (if isHealthy b \<and> int (length (contexts b)) < maxPages cfg then Some (inst b)
      else findAvailable cfg bs)"

text \<open>\<open>createBrowser\<close>. The id is made from the time \<open>t\<close> of the call, before the launch;
  \<open>l\<close> is the outcome of the launch and \<open>p\<close> the pool when the launch has settled, which
  is the pool at the call when nothing ran during the launch.\<close>

definition createBrowser :: "int \<Rightarrow> driver_result \<Rightarrow> pool \<Rightarrow> (pool_error + ref) \<times> pool" where
  "createBrowser t l p =
     (case l of
        Failed msg \<Rightarrow> (Inl (DriverLaunchFailed msg), p)
      | Done \<Rightarrow>
          (let i = issued p;
               b = \<lparr>browserId = t, inst = i, contexts = [], isHealthy = True\<rparr>
           in (Inr i,
               p\<lparr>browsers := AList.update t b (browsers p),
                 poolMetrics := (poolMetrics p)\<lparr>created := created (poolMetrics p) + 1,
                                                healthy := healthy (poolMetrics p) + 1\<rparr>,
                 issued := Suc i\<rparr>)))"

text \<open>
  \<open>waitForAvailableBrowser(timeout)\<close>, entered at \<open>startTime\<close>. Other tasks run while the
  caller sleeps, so the handles seen at the \<open>k\<close>-th poll are \<open>view k\<close>; the \<open>k\<close>-th sleep,
  \<open>setTimeout(resolve, 100)\<close>, lasts 100 ms plus a lateness that a timer may have. The
  result carries the time at which the function returns or throws.
\<close>

function waitForAvailableBrowser ::
  "pool_config \<Rightarrow> (nat \<Rightarrow> (int \<times> browser) list) \<Rightarrow> (nat \<Rightarrow> nat) \<Rightarrow> int \<Rightarrow> int
     \<Rightarrow> nat \<Rightarrow> int \<Rightarrow> (pool_error + ref) \<times> int" where
  "waitForAvailableBrowser cfg view lateness tmo startTime k now =
     (if now - startTime < tmo then
        (case findAvailable cfg (view k) of
           Some i \<Rightarrow> (Inr i, now)
         | None \<Rightarrow>
             waitForAvailableBrowser cfg view lateness tmo startTime (Suc k)
               (now + 100 + int (lateness k)))
      else (Inl PoolExhausted, now))"
  by pat_completeness auto
termination
  by (relation "measure (\<lambda>(cfg, view, lateness, tmo, startTime, k, now).
        nat (startTime + tmo - now))") auto

declare waitForAvailableBrowser.simps [simp del]

text \<open>What the driver does during one \<open>getPage\<close>, the time of the call, and the time at
  which the session is registered, after the context and the page have been created.\<close>

record acquire_env =
  clock :: int
  launch :: driver_result
  newContext :: driver_result
  newPage :: driver_result
  lateness :: "nat \<Rightarrow> nat"
  registered :: int

text \<open>\<open>getAvailableBrowser\<close>, as a call that no other call overlaps: nothing changes the
  handles between the test of \<open>browsers.size\<close> and the insertion that ends the launch,
  nor during the sleeps of the wait, whose every poll therefore sees the handles of the
  call. The source calls \<open>waitForAvailableBrowser()\<close> without an argument, so the timeout
  is the parameter's default, 10000. The result carries the time at which the browser
  was chosen.\<close>

definition getAvailableBrowser ::
  "pool_config \<Rightarrow> acquire_env \<Rightarrow> pool \<Rightarrow> (pool_error + ref) \<times> int \<times> pool" where
  "getAvailableBrowser cfg env p =
     (case findAvailable cfg (browsers p) of
        Some i \<Rightarrow> (Inr i, clock env, p)
      | None \<Rightarrow>
          if int (length (browsers p)) < maxBrowsers cfg
          then (case createBrowser (clock env) (launch env) p of
                  (r, p') \<Rightarrow> (r, clock env, p'))
          else (case waitForAvailableBrowser cfg (\<lambda>k. browsers p) (lateness env) 10000
                       (clock env) 0 (clock env) of
                  (r, t) \<Rightarrow> (r, t, p)))"

subsection \<open>\<open>getPage\<close> and \<open>releasePage\<close>\<close>

text \<open>The \<open>try\<close> block of \<open>getPage\<close>.\<close>

definition getPageBody ::
  "pool_config \<Rightarrow> session_id \<Rightarrow> acquire_env \<Rightarrow> pool \<Rightarrow> (pool_error + ref) \<times> pool" where
  "getPageBody cfg sid env p =
     (if isShuttingDown p then (Inl PoolShuttingDown, p)
      else
        case getAvailableBrowser cfg env p of
          (Inl e, t, p1) \<Rightarrow> (Inl e, p1)
        | (Inr i, t, p1) \<Rightarrow>
            (case newContext env of
               Failed msg \<Rightarrow> (Inl (DriverFailed msg), p1)
             | Done \<Rightarrow>
                 (let c = issued p1; p2 = p1\<lparr>issued := Suc c\<rparr>
                  in case newPage env of
                       Failed msg \<Rightarrow> (Inl (DriverFailed msg), p2)
                     | Done \<Rightarrow>
                         (let pg = issued p2;
                              s = \<lparr>sessionId = sid, sBrowser = i, sContext = c, sPage = pg,
                                   createdAt = registered env,
                                   lastActivity = registered env\<rparr>
                          in (Inr pg,
                              p2\<lparr>sessions := AList.update sid s (sessions p2),
                                 poolMetrics := (poolMetrics p2)\<lparr>activePages :=
                                   activePages (poolMetrics p2) + 1\<rparr>,
                                 issued := Suc pg\<rparr>)))))"

text \<open>\<open>getPage\<close>, as a call that no other call overlaps: the request is counted, and the
  \<open>catch\<close> counts a failure and rethrows.\<close>

definition getPage ::
  "pool_config \<Rightarrow> session_id \<Rightarrow> acquire_env \<Rightarrow> pool \<Rightarrow> (pool_error + ref) \<times> pool" where
  "getPage cfg sid env p =
     (let p0 = p\<lparr>poolMetrics := (poolMetrics p)\<lparr>poolTotalRequests :=
                  poolTotalRequests (poolMetrics p) + 1\<rparr>\<rparr>
      in case getPageBody cfg sid env p0 of
           (Inl e, p1) \<Rightarrow>
             (Inl e, p1\<lparr>poolMetrics := (poolMetrics p1)\<lparr>poolFailedRequests :=
                          poolFailedRequests (poolMetrics p1) + 1\<rparr>\<rparr>)
         | (Inr pg, p1) \<Rightarrow> (Inr pg, p1))"

text \<open>What the driver does during one \<open>releasePage\<close>: what \<open>page.isClosed()\<close> answers, and
  the outcomes of \<open>page.close()\<close> and \<open>context.close()\<close>.\<close>

record release_env =
  pageClosed :: bool
  pageClose :: driver_result
  contextClose :: driver_result

text \<open>The \<open>try\<close> block of \<open>releasePage\<close>, for a session that is registered: \<open>Inl\<close> is the
  exception it throws.\<close>

definition releaseBody :: "release_env \<Rightarrow> session_id \<Rightarrow> pool \<Rightarrow> string + pool" where
  "releaseBody env sid p =
     (case (if \<not> pageClosed env then pageClose env else Done) of
        Failed msg \<Rightarrow> Inl msg
      | Done \<Rightarrow>
          (case contextClose env of
             Failed msg \<Rightarrow> Inl msg
           | Done \<Rightarrow>
               Inr (p\<lparr>sessions := AList.delete sid (sessions p),
                      poolMetrics := (poolMetrics p)\<lparr>activePages :=
                        activePages (poolMetrics p) - 1\<rparr>\<rparr>)))"

text \<open>\<open>releasePage\<close>: an unknown session is logged; the \<open>catch\<close> logs the exception of the
  \<open>try\<close> block and the function returns.\<close>

definition releasePage :: "release_env \<Rightarrow> session_id \<Rightarrow> pool \<Rightarrow> pool" where
  "releasePage env sid p =
     (case map_of (sessions p) sid of
        None \<Rightarrow> p
      | Some s \<Rightarrow> (case releaseBody env sid p of Inl msg \<Rightarrow> p | Inr p' \<Rightarrow> p'))"

text \<open>Every close that \<open>releasePage\<close> attempts completes.\<close>

definition closesComplete :: "release_env \<Rightarrow> bool" where
  "closesComplete env =
     ((pageClosed env \<or> pageClose env = Done) \<and> contextClose env = Done)"


subsection \<open>Removing handles, crash signals\<close>

text \<open>\<open>removeBrowser\<close>: the \<open>try\<close> block closes the contexts and the instance and its
  \<open>catch\<close> swallows their exceptions; the handle is deleted in either case.\<close>

definition removeBrowser :: "int \<Rightarrow> pool \<Rightarrow> pool" where
  "removeBrowser bid p =
     (case map_of (browsers p) bid of
        None \<Rightarrow> p
      | Some b \<Rightarrow>
          p\<lparr>browsers := AList.delete bid (browsers p),
            poolMetrics := (poolMetrics p)\<lparr>destroyed := destroyed (poolMetrics p) + 1\<rparr>\<rparr>)"

definition handleBrowserDisconnect :: "int \<Rightarrow> pool \<Rightarrow> pool" where
  "handleBrowserDisconnect bid p =
     p\<lparr>poolMetrics := (poolMetrics p)\<lparr>crashed := crashed (poolMetrics p) + 1\<rparr>,
       browsers := AList.map_entry bid (\<lambda>b. b\<lparr>isHealthy := False\<rparr>) (browsers p)\<rparr>"

definition handlePageCrash :: "release_env \<Rightarrow> session_id \<Rightarrow> pool \<Rightarrow> pool" where
  "handlePageCrash env sid p =
     releasePage env sid
       (p\<lparr>poolMetrics := (poolMetrics p)\<lparr>crashed := crashed (poolMetrics p) + 1\<rparr>\<rparr>)"

subsection \<open>The health check\<close>

text \<open>What the driver shows of one browser instance during a health check:
  \<open>isConnected()\<close>, \<open>contexts()\<close>, and whether the round trip (a throwaway context and
  page, an evaluation, two closes) completes. If \<open>isConnected()\<close> or \<open>contexts()\<close> itself
  throws, the \<open>catch\<close> does to the handle what the disconnected branch does, and
  \<open>connected\<close> is \<open>False\<close>.\<close>

record probe =
  connected :: bool
  liveContexts :: "ref list"
  roundTrip :: driver_result

text \<open>What happens during one run of \<open>performHealthCheck\<close>: its time, the probe of each
  instance, the time and launch outcome of each \<open>createBrowser\<close> of the replenishing
  loop, in order, and the driver's part in each release of a stale session.\<close>

record health_env =
  checkTime :: int
  probeOf :: "ref \<Rightarrow> probe"
  replenishments :: "(int \<times> driver_result) list"
  staleRelease :: "session_id \<Rightarrow> release_env"

text \<open>\<open>checkBrowserHealth\<close> up to its first \<open>await\<close>, which is reached in the same
  synchronous stretch as the call of \<open>performHealthCheck\<close>: a disconnected browser is
  marked unhealthy, a connected one gets its \<open>contexts\<close> refreshed and is being probed.\<close>

definition checkConnected :: "probe \<Rightarrow> browser \<Rightarrow> browser" where
  "checkConnected pr b =
     (if \<not> connected pr then b\<lparr>isHealthy := False\<rparr> else b\<lparr>contexts := liveContexts pr\<rparr>)"

text \<open>The rest of \<open>checkBrowserHealth\<close>, when the round trip has completed or thrown: a
  completed round trip sets \<open>isHealthy\<close> to \<open>true\<close>, whatever it was.\<close>

definition probeSettled :: "probe \<Rightarrow> browser \<Rightarrow> browser" where
  "probeSettled pr b =
     (case roundTrip pr of
        Done \<Rightarrow> b\<lparr>isHealthy := True\<rparr>
      | Failed msg \<Rightarrow> b\<lparr>isHealthy := False\<rparr>)"

text \<open>The start of a run: every handle is checked for connection. The second component
  lists the handle objects whose probes are in flight, each known by its id and its
  instance.\<close>

definition healthCheckBegin :: "health_env \<Rightarrow> pool \<Rightarrow> pool \<times> (int \<times> ref) list" where
  "healthCheckBegin env p =
     (p\<lparr>browsers := map (\<lambda>(i, b). (i, checkConnected (probeOf env (inst b)) b)) (browsers p),
        poolMetrics := (poolMetrics p)\<lparr>unhealthy := unhealthy (poolMetrics p)
          + length (filter (\<lambda>(i, b). \<not> connected (probeOf env (inst b))) (browsers p))\<rparr>\<rparr>,
      map (\<lambda>(i, b). (i, inst b))
        (filter (\<lambda>(i, b). connected (probeOf env (inst b))) (browsers p)))"

text \<open>The probes in flight settle: each writes its verdict into its handle object, which
  changes the pool if the object is still in \<open>browsers\<close>; every failed probe is counted.\<close>

definition probesSettle :: "health_env \<Rightarrow> (int \<times> ref) list \<Rightarrow> pool \<Rightarrow> pool" where
  "probesSettle env probing p =
     p\<lparr>browsers :=
         map (\<lambda>(i, b). (i, if (i, inst b) \<in> set probing
                            then probeSettled (probeOf env (inst b)) b else b))
           (browsers p),
       poolMetrics := (poolMetrics p)\<lparr>unhealthy := unhealthy (poolMetrics p)
         + length (filter (\<lambda>(i, r). roundTrip (probeOf env r) \<noteq> Done) probing)\<rparr>\<rparr>"

text \<open>The replenishing loop of \<open>cleanupUnhealthyBrowsers\<close>,
  \<open>while (this.browsers.size < minBrowsers && !this.isShuttingDown)\<close>. Two browsers created
  in the same millisecond share an id and the second replaces the first, so the number
  of iterations is not bounded by the configuration: the loop consumes the list of
  creations that the environment supplies, and \<open>None\<close> says that the list ended while the
  loop still ran. A failed launch is thrown out of the loop.\<close>

fun replenish ::
  "pool_config \<Rightarrow> (int \<times> driver_result) list \<Rightarrow> pool \<Rightarrow> ((pool_error + unit) \<times> pool) option"
where
  "replenish cfg [] p =
     (if int (length (browsers p)) < min 2 (maxBrowsers cfg) \<and> \<not> isShuttingDown p
      then None else Some (Inr (), p))"
| "replenish cfg ((t, l) # rest) p =
     (if int (length (browsers p)) < min 2 (maxBrowsers cfg) \<and> \<not> isShuttingDown p
      then (case createBrowser t l p of
              (Inl e, p') \<Rightarrow> Some (Inl e, p')
            | (Inr i, p') \<Rightarrow> replenish cfg rest p')
      else Some (Inr (), p))"

text \<open>The removals of \<open>cleanupUnhealthyBrowsers\<close>.\<close>

definition removeUnhealthy :: "pool \<Rightarrow> pool" where
  "removeUnhealthy p =
     fold removeBrowser (map fst (filter (\<lambda>(i, b). \<not> isHealthy b) (browsers p))) p"

definition cleanupStaleSessions :: "pool_config \<Rightarrow> health_env \<Rightarrow> pool \<Rightarrow> pool" where
  "cleanupStaleSessions cfg env p =
     fold (\<lambda>sid. releasePage (staleRelease env sid) sid)
       (map fst (filter (\<lambda>(sid, s). checkTime env - lastActivity s > sessionTimeout cfg)
          (sessions p)))
       p"

text \<open>The part of \<open>performHealthCheck\<close> after \<open>Promise.allSettled\<close>.\<close>

definition healthCheckFinish ::
  "pool_config \<Rightarrow> health_env \<Rightarrow> (int \<times> ref) list \<Rightarrow> pool
     \<Rightarrow> ((pool_error + unit) \<times> pool) option" where
  "healthCheckFinish cfg env probing p =
     (case replenish cfg (replenishments env) (removeUnhealthy (probesSettle env probing p)) of
        None \<Rightarrow> None
      | Some (Inl e, p') \<Rightarrow> Some (Inl e, p')
      | Some (Inr u, p') \<Rightarrow> Some (Inr (), cleanupStaleSessions cfg env p'))"

text \<open>A run of \<open>performHealthCheck\<close> that nothing interleaves with.\<close>

definition performHealthCheck ::
  "pool_config \<Rightarrow> health_env \<Rightarrow> pool \<Rightarrow> ((pool_error + unit) \<times> pool) option" where
  "performHealthCheck cfg env p =
     (case healthCheckBegin env p of (p1, probing) \<Rightarrow> healthCheckFinish cfg env probing p1)"

subsection \<open>\<open>initialize\<close> and \<open>shutdown\<close>\<close>

text \<open>The loop of \<open>initialize\<close>: \<open>n\<close> more browsers, the \<open>i\<close>-th creation being
  \<open>launches i\<close>.\<close>

fun prewarm :: "nat \<Rightarrow> (nat \<Rightarrow> int \<times> driver_result) \<Rightarrow> nat \<Rightarrow> pool \<Rightarrow> (pool_error + unit) \<times> pool"
where
  "prewarm 0 launches i p = (Inr (), p)"
| "prewarm (Suc n) launches i p =
     (case createBrowser (fst (launches i)) (snd (launches i)) p of
        (Inl e, p') \<Rightarrow> (Inl e, p')
      | (Inr r, p') \<Rightarrow> prewarm n launches (Suc i) p')"

definition startHealthMonitoring :: "pool \<Rightarrow> pool" where
  "startHealthMonitoring p = p\<lparr>healthCheckTimer := TimerRunning\<rparr>"

definition initialize ::
  "pool_config \<Rightarrow> (nat \<Rightarrow> int \<times> driver_result) \<Rightarrow> pool \<Rightarrow> (pool_error + unit) \<times> pool" where
  "initialize cfg launches p =
     (case prewarm (nat (min 2 (maxBrowsers cfg))) launches 0 p of
        (Inl e, p') \<Rightarrow> (Inl e, p')
      | (Inr u, p') \<Rightarrow> (Inr (), startHealthMonitoring p'))"

text \<open>\<open>shutdown\<close>, as a call that no other call overlaps; \<open>env sid\<close> is the driver's part
  in the release of session \<open>sid\<close>. \<open>clearInterval\<close> leaves the cleared handle in
  \<open>healthCheckTimer\<close>.\<close>

definition shutdown :: "(session_id \<Rightarrow> release_env) \<Rightarrow> pool \<Rightarrow> pool" where
  "shutdown env p =
     (let p1 = p\<lparr>isShuttingDown := True,
                 healthCheckTimer :=
                   (if healthCheckTimer p = NoTimer then NoTimer else TimerCleared)\<rparr>;
          p2 = fold (\<lambda>sid. releasePage (env sid) sid) (map fst (sessions p1)) p1
      in fold removeBrowser (map fst (browsers p2)) p2)"

subsection \<open>Sequences of pool operations\<close>

datatype pool_op =
  GetPage session_id acquire_env
| ReleasePage session_id release_env
| PerformHealthCheck health_env
| BrowserDisconnect int
| PageCrash session_id release_env
| Initialize "nat \<Rightarrow> int \<times> driver_result"
| Shutdown "session_id \<Rightarrow> release_env"

text \<open>The pool after one operation that ran from its call to its end with no other call
  in between, whether it returned or threw; \<open>None\<close> only when the replenishing loop of a
  health check outran its list of creations. A sequence of such operations is a run of
  the pool in which no two calls overlap.\<close>

fun poolStep :: "pool_config \<Rightarrow> pool_op \<Rightarrow> pool \<Rightarrow> pool option" where
  "poolStep cfg (GetPage sid env) p = Some (snd (getPage cfg sid env p))"
| "poolStep cfg (ReleasePage sid env) p = Some (releasePage env sid p)"
| "poolStep cfg (PerformHealthCheck env) p = map_option snd (performHealthCheck cfg env p)"
| "poolStep cfg (BrowserDisconnect bid) p = Some (handleBrowserDisconnect bid p)"
| "poolStep cfg (PageCrash sid env) p = Some (handlePageCrash env sid p)"
| "poolStep cfg (Initialize launches) p = Some (snd (initialize cfg launches p))"
| "poolStep cfg (Shutdown env) p = Some (shutdown env p)"

fun poolRun :: "pool_config \<Rightarrow> pool_op list \<Rightarrow> pool \<Rightarrow> pool option" where
  "poolRun cfg [] p = Some p"
| "poolRun cfg (op # ops) p =
     (case poolStep cfg op p of None \<Rightarrow> None | Some p' \<Rightarrow> poolRun cfg ops p')"

fun acquireOrRelease :: "pool_op \<Rightarrow> bool" where
  "acquireOrRelease (GetPage sid env) = True"
| "acquireOrRelease (ReleasePage sid env) = True"
| "acquireOrRelease other = False"

subsection \<open>The periodic timer\<close>

text \<open>
  \<open>startHealthMonitoring\<close> registers \<open>async () => { await this.performHealthCheck(); }\<close>
  with \<open>setInterval\<close>. A run of \<open>performHealthCheck\<close> is in progress from the timer
  callback that starts it until its promise settles; the monitor is the pool together
  with the runs in progress, each known by the probes it has in flight.
\<close>

record monitor =
  mpool :: pool
  inProgress :: "(int \<times> ref) list list"

text \<open>The timer callback, for an interval that has not been cleared.\<close>

definition timerCallback :: "health_env \<Rightarrow> monitor \<Rightarrow> monitor" where
  "timerCallback env m =
     (if healthCheckTimer (mpool m) = TimerRunning
      then (case healthCheckBegin env (mpool m) of
              (p, probing) \<Rightarrow> \<lparr>mpool = p, inProgress = inProgress m @ [probing]\<rparr>)
      else m)"

text \<open>The oldest run in progress goes on to its end.\<close>

definition runCompletes :: "pool_config \<Rightarrow> health_env \<Rightarrow> monitor \<Rightarrow> monitor option" where
  "runCompletes cfg env m =
     (case inProgress m of
        [] \<Rightarrow> Some m
      | probing # rest \<Rightarrow>
          map_option (\<lambda>(r, p). \<lparr>mpool = p, inProgress = rest\<rparr>)
            (healthCheckFinish cfg env probing (mpool m)))"


subsection \<open>The synchronous stretches that touch the handles\<close>

text \<open>
  Between two \<open>await\<close>s a call runs without interruption. The stretches of the source that
  return an instance to an acquiring caller, or that change \<open>browsers\<close> or one of the
  fields \<open>isHealthy\<close> and \<open>contexts\<close> of a handle object, are these:
  \<^item> the scanning loop of \<open>getAvailableBrowser\<close>, and of each poll of
    \<open>waitForAvailableBrowser\<close>, which returns an instance or goes on;
  \<^item> the part of \<open>createBrowser\<close> after the launch, which inserts a handle under the id
    made at the call and returns its instance, or rethrows the failure of the launch;
  \<^item> the start of \<open>performHealthCheck\<close>, which runs \<open>checkBrowserHealth\<close> on every handle
    up to its first \<open>await\<close>;
  \<^item> the end of \<open>checkBrowserHealth\<close> on some handle objects, when their probes settle;
  \<^item> the end of \<open>removeBrowser\<close>, \<open>this.browsers.delete(browserId)\<close> with its count;
  \<^item> \<open>handleBrowserDisconnect\<close>.

  Every other stretch leaves them as they are: it only reads them (the tests of
  \<open>browsers.size\<close>, the collection of the ids to remove, \<open>getMetrics\<close>) or does not
  touch them. The driver gives out references for contexts and pages as well. These
  events, in any order, cover every interleaving of the calls of the pool.
\<close>

definition browserDeleted :: "int \<Rightarrow> pool \<Rightarrow> pool" where
  "browserDeleted bid p =
     p\<lparr>browsers := AList.delete bid (browsers p),
       poolMetrics := (poolMetrics p)\<lparr>destroyed := destroyed (poolMetrics p) + 1\<rparr>\<rparr>"

datatype handle_event =
  Scans
| Launched int driver_result
| DriverIssues
| CheckBegins health_env
| ProbesSettle health_env "(int \<times> ref) list"
| BrowserDeleted int
| Disconnects int

text \<open>One event: the instance it returns to the acquiring caller, if any, and the pool
  it leaves.\<close>

fun handleStep :: "pool_config \<Rightarrow> handle_event \<Rightarrow> pool \<Rightarrow> ref option \<times> pool" where
  "handleStep cfg Scans p = (findAvailable cfg (browsers p), p)"
| "handleStep cfg (Launched t l) p =
     (case createBrowser t l p of
        (Inl e, p') \<Rightarrow> (None, p')
      | (Inr i, p') \<Rightarrow> (Some i, p'))"
| "handleStep cfg DriverIssues p = (None, p\<lparr>issued := Suc (issued p)\<rparr>)"
| "handleStep cfg (CheckBegins env) p = (None, fst (healthCheckBegin env p))"
| "handleStep cfg (ProbesSettle env probing) p = (None, probesSettle env probing p)"
| "handleStep cfg (BrowserDeleted bid) p = (None, browserDeleted bid p)"
| "handleStep cfg (Disconnects bid) p = (None, handleBrowserDisconnect bid p)"

text \<open>A sequence of events: the instances returned, in order, and the pool at the end.\<close>

fun handleRun :: "pool_config \<Rightarrow> handle_event list \<Rightarrow> pool \<Rightarrow> ref list \<times> pool" where
  "handleRun cfg [] p = ([], p)"
| "handleRun cfg (ev # evs) p =
     (case handleStep cfg ev p of
        (r, p') \<Rightarrow>
          (case handleRun cfg evs p' of
             (rs, p'') \<Rightarrow> ((case r of None \<Rightarrow> [] | Some i \<Rightarrow> [i]) @ rs, p'')))"

subsection \<open>Vocabulary of the pool properties\<close>

text \<open>The active session count of a handle is the length of its \<open>contexts\<close>, the number
  that \<open>getAvailableBrowser\<close> compares with \<open>maxPages\<close>; \<open>sumActive\<close> adds the counts of
  all handles.\<close>

definition sumActive :: "pool \<Rightarrow> nat" where
  "sumActive p = sum_list (map (\<lambda>(i, b). length (contexts b)) (browsers p))"

text \<open>No handle has a context in its \<open>contexts\<close> list.\<close>

definition noContexts :: "pool \<Rightarrow> bool" where
  "noContexts p = (\<forall>(i, b) \<in> set (browsers p). contexts b = [])"

text \<open>The bounds that every sequence of \<open>getPage\<close> and \<open>releasePage\<close> keeps.\<close>

definition shape :: "pool_config \<Rightarrow> pool \<Rightarrow> bool" where
  "shape cfg p = (int (length (browsers p)) \<le> maxBrowsers cfg \<and> noContexts p
     \<and> int (length (sessions p)) \<le> activePages (poolMetrics p))"

text \<open>The session ids are distinct, as the keys of a Map are, and \<open>activePages\<close> is the
  number of sessions.\<close>

definition exact :: "pool \<Rightarrow> bool" where
  "exact p = (distinct (map fst (sessions p)) \<and> int (length (sessions p)) = activePages (poolMetrics p))"

text \<open>The instances of the handles in the pool.\<close>

definition insts :: "pool \<Rightarrow> ref set" where
  "insts p = (\<lambda>(i, b). inst b) ` set (browsers p)"

text \<open>Every instance in the pool was issued by the driver, and no two handles hold the
  same instance.\<close>

definition sound :: "pool \<Rightarrow> bool" where
  "sound p = ((\<forall>r \<in> insts p. r < issued p) \<and> distinct (map (\<lambda>(i, b). inst b) (browsers p)))"

text \<open>The instance was issued and no handle of the pool holds it: its handle has been
  destroyed.\<close>

definition retired :: "ref \<Rightarrow> pool \<Rightarrow> bool" where
  "retired r p = (r < issued p \<and> r \<notin> insts p)"

text \<open>The instance was issued and every handle that holds it is marked unhealthy.\<close>

definition marked :: "ref \<Rightarrow> pool \<Rightarrow> bool" where
  "marked r p = (r < issued p \<and> (\<forall>(i, b) \<in> set (browsers p). inst b = r \<longrightarrow> \<not> isHealthy b))"

text \<open>From \<open>p\<close> to \<open>p'\<close>, every handle either holds an instance issued in between or holds
  the instance of a handle of \<open>p\<close>; when \<open>strict\<close>, a healthy handle of the second kind
  was healthy in \<open>p\<close>.\<close>

definition evolves :: "bool \<Rightarrow> pool \<Rightarrow> pool \<Rightarrow> bool" where
  "evolves strict p p' =
     (issued p \<le> issued p' \<and>
      (\<forall>(i', b') \<in> set (browsers p').
         (issued p \<le> inst b' \<and> inst b' < issued p') \<or>
         (\<exists>(i, b) \<in> set (browsers p). inst b = inst b' \<and> (strict \<longrightarrow> isHealthy b' \<longrightarrow> isHealthy b))))"

text \<open>The pool of a health check between the settling of its probes and the removals.\<close>

definition checked :: "health_env \<Rightarrow> pool \<Rightarrow> pool" where
  "checked env p = (case healthCheckBegin env p of (p1, probing) \<Rightarrow> probesSettle env probing p1)"

text \<open>Every \<open>getPage\<close> of the sequence is called with a session id that is not registered
  at the time of the call.\<close>

fun freshAcquires :: "pool_config \<Rightarrow> pool_op list \<Rightarrow> pool \<Rightarrow> bool" where
  "freshAcquires cfg [] p = True"
| "freshAcquires cfg (op # ops) p =
     ((case op of GetPage sid env \<Rightarrow> map_of (sessions p) sid = None | _ \<Rightarrow> True)
      \<and> (case poolStep cfg op p of None \<Rightarrow> True | Some p' \<Rightarrow> freshAcquires cfg ops p'))"

text \<open>The verdict of a health check on an instance: healthy when the driver reports it
  connected and the round trip completes.\<close>

definition healthyVerdict :: "probe \<Rightarrow> bool" where
  "healthyVerdict pr = (connected pr \<and> roundTrip pr = Done)"

fun isHealthCheck :: "pool_op \<Rightarrow> bool" where
  "isHealthCheck (PerformHealthCheck env) = True"
| "isHealthCheck other = False"

text \<open>The event is the settling of a probe of instance \<open>r\<close> whose round trip completed:
  the only stretch that sets \<open>isHealthy\<close> of an existing handle to \<open>true\<close>.\<close>

fun revives :: "ref \<Rightarrow> handle_event \<Rightarrow> bool" where
  "revives r (ProbesSettle env probing) =
     (r \<in> snd ` set probing \<and> roundTrip (probeOf env r) = Done)"
| "revives r other = False"


subsection \<open>Example inputs for the pool\<close>

text \<open>The constructor's defaults.\<close>

definition examplePoolConfig :: pool_config where
  "examplePoolConfig =
     \<lparr>maxBrowsers = 5, maxPages = 10, sessionTimeout = 300000, poolTimeout = 30000\<rparr>"

text \<open>A pool of one handle with room for one session, and a context timeout of 50 ms.\<close>

definition smallPoolConfig :: pool_config where
  "smallPoolConfig = \<lparr>maxBrowsers = 1, maxPages = 1, sessionTimeout = 300000, poolTimeout = 50\<rparr>"

text \<open>A driver whose calls all succeed, with timers that fire on time.\<close>

definition okAcquire :: "int \<Rightarrow> acquire_env" where
  "okAcquire t =
     \<lparr>clock = t, launch = Done, newContext = Done, newPage = Done, lateness = (\<lambda>k. 0),
      registered = t\<rparr>"

definition okRelease :: release_env where
  "okRelease = \<lparr>pageClosed = False, pageClose = Done, contextClose = Done\<rparr>"

text \<open>A driver whose \<open>page.close()\<close> throws.\<close>

definition failingRelease :: release_env where
  "failingRelease =
     \<lparr>pageClosed = False, pageClose = Failed ''Target closed'', contextClose = Done\<rparr>"

text \<open>A new pool after one \<open>getPage\<close> at time 1000: the browser is instance 0, the session
  has context 1 and page 2.\<close>

definition onePage :: "pool_config \<Rightarrow> pool" where
  "onePage cfg = snd (getPage cfg ''s1'' (okAcquire 1000) newPool)"

text \<open>A health check at time 2000 during which the driver reports every instance connected
  with the one context 1 open, and every round trip completes.\<close>

definition okCheck :: health_env where
  "okCheck =
     \<lparr>checkTime = 2000,
      probeOf = (\<lambda>r. \<lparr>connected = True, liveContexts = [1], roundTrip = Done\<rparr>),
      replenishments = [(2000, Done), (2001, Done)],
      staleRelease = (\<lambda>sid. okRelease)\<rparr>"

text \<open>A health check at time 2000 during which the round trip of every instance throws.\<close>

definition failingCheck :: health_env where
  "failingCheck =
     \<lparr>checkTime = 2000,
      probeOf = (\<lambda>r. \<lparr>connected = True, liveContexts = [1], roundTrip = Failed ''crashed''\<rparr>),
      replenishments = [(2000, Done), (2001, Done)],
      staleRelease = (\<lambda>sid. okRelease)\<rparr>"


text \<open>The pool of \<open>smallPoolConfig\<close> after one \<open>getPage\<close> and one health check: its only
  handle is healthy and lists the context of session \<open>s1\<close>, so it is at capacity, and the
  number of handles is \<open>maxBrowsers\<close>.\<close>

definition fullPool :: pool where
  "fullPool = snd (the (performHealthCheck smallPoolConfig okCheck (onePage smallPoolConfig)))"



text \<open>The pool of \<open>examplePoolConfig\<close> after one \<open>getPage\<close> and a health check in which the
  probe of its only handle failed.\<close>

definition afterFailedCheck :: pool where
  "afterFailedCheck =
     snd (the (performHealthCheck examplePoolConfig failingCheck (onePage examplePoolConfig)))"


text \<open>The pool of \<open>examplePoolConfig\<close> after one \<open>getPage\<close>, the disconnect signal of its
  browser, and a health check during which the driver reports the browser connected and
  the round trip completes.\<close>

definition afterRevival :: pool where
  "afterRevival =
     snd (the (performHealthCheck examplePoolConfig okCheck
       (handleBrowserDisconnect 1000 (onePage examplePoolConfig))))"

text \<open>Launches that succeed at times 500, 501, ...\<close>

definition okLaunches :: "nat \<Rightarrow> int \<times> driver_result" where
  "okLaunches i = (500 + int i, Done)"

text \<open>The monitor of an initialized pool: two handles, the timer running, no run in
  progress.\<close>

definition initialMonitor :: monitor where
  "initialMonitor =
     \<lparr>mpool = snd (initialize examplePoolConfig okLaunches newPool), inProgress = []\<rparr>"

section \<open>Properties of the circuit breaker\<close>

lemmas breaker_eval =
  exampleConfig_def thresholdOne_def newBreaker_def execute_def executeBegin_def
  executeFinish_def executeFallback_def timerCallbackRejects_def timerDelay_def
  onFailure_def onSuccess_def setState_def setStateThrows_def validDate_def
  recordRequest_def shouldOpen_def getRecentRequests_def inWindow_def Let_def
  boomOp_def undefinedOp_def quickOp_def lateOp_def neverOp_def blockingOp_def

subsection \<open>Opening after the threshold, rejection, and the half-open trial\<close>

lemma setState_OPEN_opened: "opened cfg (setState cfg t OPEN b)"
  by (simp add: opened_def setState_def Let_def)

lemma onFailure_cases:
  "state b \<noteq> OPEN \<Longrightarrow>
     opened cfg (snd (onFailure cfg t (Some m) b)) \<or>
     (state b = CLOSED \<and> state (snd (onFailure cfg t (Some m) b)) = CLOSED
       \<and> failures (snd (onFailure cfg t (Some m) b)) = failures b + 1
       \<and> int (failures b + 1) < threshold cfg)"
  apply (cases "state b")
    apply (simp_all add: onFailure_def recordRequest_def Let_def setState_OPEN_opened)
  apply (auto simp: shouldOpen_def split: if_splits)
  done

lemma executeBegin_CLOSED:
  "state b = CLOSED \<Longrightarrow>
     \<exists>b1. executeBegin cfg t b = (Admitted, b1) \<and> state b1 = CLOSED
          \<and> failures b1 = failures b"
  by (simp add: executeBegin_def Let_def)

lemma executeBegin_opened:
  "opened cfg b \<Longrightarrow> nextAttempt b = Some n \<Longrightarrow>
     (t < n \<and> (\<exists>b1. executeBegin cfg t b = (Refused, b1) \<and> opened cfg b1
                  \<and> failures b1 = failures b \<and> nextAttempt b1 = Some n)) \<or>
     (n \<le> t \<and> (\<exists>b1. executeBegin cfg t b = (Admitted, b1) \<and> state b1 = HALF_OPEN))"
  by (auto simp: executeBegin_def Let_def opened_def setState_def)

lemma failing_executeWithTimeout:
  "failsReadably cfg beh \<Longrightarrow>
     \<exists>rj el b2 m. executeWithTimeout cfg beh b1 = (Inl rj, el, b2)
        \<and> rejectionMessage rj = Some m \<and> state b2 = state b1 \<and> failures b2 = failures b1"
  by (cases beh) (auto simp: timerCallbackRejects_def)

lemma execute_admitted_failing:
  assumes adm: "executeBegin cfg t b = (Admitted, b1)"
    and f: "failingOp cfg fn"
    and ex: "execute cfg t fn fb (b, w) = (r, b', w')"
  shows "\<exists>T m b2. b' = snd (onFailure cfg T (Some m) b2) \<and> state b2 = state b1
            \<and> failures b2 = failures b1"
proof -
  obtain beh w1 where fw: "fn w = (beh, w1)" by (cases "fn w")
  from f fw have "failsReadably cfg beh"
    unfolding failingOp_def by (metis fst_conv)
  from failing_executeWithTimeout[OF this, of b1] obtain rj el b2 m where
    ewt: "executeWithTimeout cfg beh b1 = (Inl rj, el, b2)"
    and m: "rejectionMessage rj = Some m"
    and s: "state b2 = state b1" "failures b2 = failures b1"
    by blast
  from ex adm fw ewt m have "b' = snd (onFailure cfg (t + el) (Some m) b2)"
    by (auto simp: execute_def executeFinish_def split: option.splits prod.splits)
  with s show ?thesis by blast
qed

text \<open>One failing call: an open breaker stays open (the call is refused, or its trial
  fails and reopens it), and a closed one either opens or counts one more failure
  below the threshold.\<close>

lemma execute_failing_step:
  assumes f: "failingOp cfg fn"
    and ex: "execute cfg t fn fb (b, w) = (r, b', w')"
  shows "(opened cfg b \<longrightarrow> opened cfg b') \<and>
         (state b = CLOSED \<longrightarrow> opened cfg b' \<or>
            (state b' = CLOSED \<and> failures b' = failures b + 1
              \<and> int (failures b + 1) < threshold cfg))"
proof (intro conjI impI)
  assume o: "opened cfg b"
  then obtain n where n: "nextAttempt b = Some n"
    by (auto simp: opened_def split: prod.splits)
  from executeBegin_opened[OF o n, of t] show "opened cfg b'"
  proof (elim disjE conjE exE)
    fix b1 assume "executeBegin cfg t b = (Refused, b1)" "opened cfg b1"
    with ex show ?thesis
      by (auto simp: execute_def split: option.splits prod.splits if_splits)
  next
    fix b1 assume adm: "executeBegin cfg t b = (Admitted, b1)" and h: "state b1 = HALF_OPEN"
    from execute_admitted_failing[OF adm f ex] obtain T m b2 where
      "b' = snd (onFailure cfg T (Some m) b2)" "state b2 = state b1" by blast
    with h show ?thesis
      by (simp add: onFailure_def recordRequest_def Let_def setState_OPEN_opened)
  qed
next
  assume c: "state b = CLOSED"
  from executeBegin_CLOSED[OF c, of cfg t] obtain b1 where
    adm: "executeBegin cfg t b = (Admitted, b1)"
    and s1: "state b1 = CLOSED" "failures b1 = failures b"
    by blast
  from execute_admitted_failing[OF adm f ex] obtain T m b2 where
    b': "b' = snd (onFailure cfg T (Some m) b2)"
    and s2: "state b2 = state b1" "failures b2 = failures b1"
    by blast
  from s1 s2 have "state b2 \<noteq> OPEN" by simp
  from onFailure_cases[OF this, of cfg T m] b' s1 s2
  show "opened cfg b' \<or> (state b' = CLOSED \<and> failures b' = failures b + 1
          \<and> int (failures b + 1) < threshold cfg)"
    by auto
qed

lemma three_failures_open:
  assumes thr: "threshold cfg = 3"
    and init: "state b0 = CLOSED" "failures b0 = 0"
    and f: "failingOp cfg fn1" "failingOp cfg fn2" "failingOp cfg fn3"
    and e1: "execute cfg t1 fn1 fb1 (b0, w0) = (r1, b1, w1)"
    and e2: "execute cfg t2 fn2 fb2 (b1, w1) = (r2, b2, w2)"
    and e3: "execute cfg t3 fn3 fb3 (b2, w2) = (r3, b3, w3)"
  shows "opened cfg b3"
proof -
  from execute_failing_step[OF f(1) e1] init
  have s1: "opened cfg b1 \<or> (state b1 = CLOSED \<and> failures b1 = 1)" by auto
  from execute_failing_step[OF f(2) e2] s1
  have s2: "opened cfg b2 \<or> (state b2 = CLOSED \<and> failures b2 = 2)" by auto
  from execute_failing_step[OF f(3) e3] s2 thr
  show ?thesis by auto
qed

lemma refused_when_early:
  assumes o: "opened cfg b" and n: "nextAttempt b = Some n" and t: "t < n"
  shows "\<exists>b4. execute cfg t fn None (b, w) = (Inl CircuitOpen, b4, w) \<and> state b4 = OPEN
            \<and> failures b4 = failures b \<and> nextAttempt b4 = Some n"
  using executeBegin_opened[OF o n, of t] t
  by (auto simp: execute_def opened_def)

lemma trial_success_closes:
  assumes o: "opened cfg b" and n: "nextAttempt b = Some n" and t: "n \<le> t"
    and fw: "fn w = (Resolves d busy v, w')" and d: "int d < timerDelay cfg \<or> busy"
  shows "fst (executeBegin cfg t b) = Admitted
         \<and> state (snd (executeBegin cfg t b)) = HALF_OPEN
         \<and> (\<exists>b5. execute cfg t fn fb (b, w) = (Inr v, b5, w') \<and> state b5 = CLOSED
                \<and> failures b5 = 0)"
proof -
  from executeBegin_opened[OF o n, of t] t obtain b1 where
    adm: "executeBegin cfg t b = (Admitted, b1)" and h: "state b1 = HALF_OPEN" by auto
  from d have ewt: "executeWithTimeout cfg (Resolves d busy v) b1 = (Inr v, int d, b1)"
    by auto
  have "state (onSuccess cfg T b1) = CLOSED \<and> failures (onSuccess cfg T b1) = 0" for T
    using h by (simp add: onSuccess_def recordRequest_def setState_def Let_def)
  with adm h fw ewt show ?thesis
    by (simp add: execute_def executeFinish_def)
qed

text \<open>
  The scenario of a breaker with \<open>threshold = 3\<close> that starts CLOSED with no failure
  counted, for operations whose failure is a timeout or a rejection with a value other
  than \<open>null\<close> and \<open>undefined\<close>. After three calls of \<open>execute\<close> with such operations (any
  fallbacks, any times) the breaker is OPEN and \<open>nextAttempt\<close> is the time of the opening
  plus \<open>sleepWindow\<close>. A call without fallback entered before \<open>nextAttempt\<close> fails with
  \<open>CircuitOpen\<close>, leaves the breaker OPEN and leaves the world as it was, whatever the
  operation: the operation is not invoked. A call entered at or after \<open>nextAttempt\<close> is
  admitted with the breaker HALF_OPEN while the operation runs, and if the operation
  resolves before the timer fires the call returns its value and the breaker is CLOSED
  with \<open>failures = 0\<close>.
\<close>

lemma threshold_three_opens_rejects_and_recovers:
  assumes "threshold cfg = 3"
    and "state b0 = CLOSED" and "failures b0 = 0"
    and "failingOp cfg fn1" and "failingOp cfg fn2" and "failingOp cfg fn3"
    and "execute cfg t1 fn1 fb1 (b0, w0) = (r1, b1, w1)"
    and "execute cfg t2 fn2 fb2 (b1, w1) = (r2, b2, w2)"
    and "execute cfg t3 fn3 fb3 (b2, w2) = (r3, b3, w3)"
  shows "state b3 = OPEN \<and>
    (\<exists>prev topen.
       last (stateChanges (metrics b3)) = (prev, OPEN, topen) \<and>
       nextAttempt b3 = Some (topen + sleepWindow cfg) \<and>
       (\<forall>t (fn :: ('u, 'v) operation) w. t < topen + sleepWindow cfg \<longrightarrow>
          (\<exists>b4. execute cfg t fn None (b3, w) = (Inl CircuitOpen, b4, w)
                \<and> state b4 = OPEN)) \<and>
       (\<forall>t (fn :: ('x, 'y) operation) fb w d busy v w'.
          topen + sleepWindow cfg \<le> t \<longrightarrow> fn w = (Resolves d busy v, w') \<longrightarrow>
          int d < timerDelay cfg \<or> busy \<longrightarrow>
            fst (executeBegin cfg t b3) = Admitted
            \<and> state (snd (executeBegin cfg t b3)) = HALF_OPEN
            \<and> (\<exists>b5. execute cfg t fn fb (b3, w) = (Inr v, b5, w') \<and> state b5 = CLOSED
                   \<and> failures b5 = 0)))"
proof -
  have o: "opened cfg b3"
    using assms by (rule three_failures_open)
  then obtain prev topen where
    l: "last (stateChanges (metrics b3)) = (prev, OPEN, topen)"
    and n: "nextAttempt b3 = Some (topen + sleepWindow cfg)"
    by (auto simp: opened_def split: prod.splits)
  have early: "\<exists>b4. execute cfg t fn None (b3, w) = (Inl CircuitOpen, b4, w) \<and> state b4 = OPEN"
    if "t < topen + sleepWindow cfg" for t w and fn :: "('u, 'v) operation"
    using refused_when_early[OF o n that, of fn w] by blast
  have trial: "fst (executeBegin cfg t b3) = Admitted
      \<and> state (snd (executeBegin cfg t b3)) = HALF_OPEN
      \<and> (\<exists>b5. execute cfg t fn fb (b3, w) = (Inr v, b5, w') \<and> state b5 = CLOSED
             \<and> failures b5 = 0)"
    if "topen + sleepWindow cfg \<le> t" "fn w = (Resolves d busy v, w')"
      "int d < timerDelay cfg \<or> busy"
    for t w w' d busy v fb and fn :: "('x, 'y) operation"
    using trial_success_closes[of cfg b3 "topen + sleepWindow cfg" t fn w d busy v w' fb] o n that
    by blast
  from o have s: "state b3 = OPEN" by (simp add: opened_def)
  show ?thesis
  proof (rule conjI[OF s], rule exI[of _ prev], rule exI[of _ topen], intro conjI allI impI)
    show "last (stateChanges (metrics b3)) = (prev, OPEN, topen)" by (rule l)
    show "nextAttempt b3 = Some (topen + sleepWindow cfg)" by (rule n)
  next
    fix t w and fn :: "('u, 'v) operation"
    assume "t < topen + sleepWindow cfg"
    then show "\<exists>b4. execute cfg t fn None (b3, w) = (Inl CircuitOpen, b4, w) \<and> state b4 = OPEN"
      by (rule early)
  next
    fix t w w' d busy v fb and fn :: "('x, 'y) operation"
    assume a: "topen + sleepWindow cfg \<le> t" "fn w = (Resolves d busy v, w')"
      "int d < timerDelay cfg \<or> busy"
    from trial[of t fn w d busy v w' fb] a
    show "fst (executeBegin cfg t b3) = Admitted"
      and "state (snd (executeBegin cfg t b3)) = HALF_OPEN"
      and "\<exists>b5. execute cfg t fn fb (b3, w) = (Inr v, b5, w') \<and> state b5 = CLOSED
             \<and> failures b5 = 0"
      by simp_all
  qed
qed

lemma threshold_three_opens_rejects_and_recovers_example:
  "threshold exampleConfig = 3 \<and> failingOp exampleConfig boomOp
   \<and> state (fst afterThreeFailures) = OPEN
   \<and> nextAttempt (fst afterThreeFailures) = Some 5025
   \<and> snd afterThreeFailures = 3
   \<and> fst (execute exampleConfig 30 quickOp None afterThreeFailures) = Inl CircuitOpen
   \<and> snd (snd (execute exampleConfig 30 quickOp None afterThreeFailures)) = 3
   \<and> fst (execute exampleConfig 5025 quickOp None afterThreeFailures) = Inr 42
   \<and> state (fst (snd (execute exampleConfig 5025 quickOp None afterThreeFailures))) = CLOSED
   \<and> failures (fst (snd (execute exampleConfig 5025 quickOp None afterThreeFailures))) = 0
   \<and> snd (snd (execute exampleConfig 5025 quickOp None afterThreeFailures)) = 4"
  by (simp add: afterThreeFailures_def failingOp_def breaker_eval)

text \<open>
  C1 fails on the code when the operation rejects with \<open>undefined\<close> (or \<open>null\<close>). With
  \<open>threshold = 3\<close>, a new breaker, and three calls of \<open>execute\<close> whose operation is invoked
  and rejects with \<open>undefined\<close>: every call counts its failure and then throws
  \<open>TypeError\<close> out of \<open>onFailure\<close>, before the state is tested, so after the three calls
  \<open>failures\<close> is 3 and the breaker is still CLOSED with \<open>nextAttempt\<close> null. The call made
  immediately afterwards is not rejected with \<open>CircuitOpen\<close>: its operation is invoked (the
  world counts a fourth invocation), and the breaker stays CLOSED.
\<close>

theorem undefined_rejections_never_open_the_breaker:
  "threshold exampleConfig = 3
   \<and> fst (execute exampleConfig 0 undefinedOp None (newBreaker, 0)) = Inl TypeError
   \<and> state (fst afterThreeUndefined) = CLOSED
   \<and> failures (fst afterThreeUndefined) = 3
   \<and> nextAttempt (fst afterThreeUndefined) = None
   \<and> snd afterThreeUndefined = 3
   \<and> fst (execute exampleConfig 30 undefinedOp None afterThreeUndefined) = Inl TypeError
   \<and> snd (snd (execute exampleConfig 30 undefinedOp None afterThreeUndefined)) = 4
   \<and> state (fst (snd (execute exampleConfig 30 undefinedOp None afterThreeUndefined))) = CLOSED"
  by (simp add: afterThreeUndefined_def breaker_eval)

subsection \<open>When \<open>nextAttempt\<close> is set\<close>

lemma lastOpening_setState:
  "lastOpening (setState cfg t s b) = (if s = OPEN then Some t else lastOpening b)"
  by (simp add: lastOpening_def setState_def Let_def)

lemma lastOpening_updates:
  "stateChanges m = stateChanges (metrics b) \<Longrightarrow> lastOpening (b\<lparr>metrics := m\<rparr>) = lastOpening b"
  "lastOpening (b\<lparr>state := s\<rparr>) = lastOpening b"
  "lastOpening (b\<lparr>failures := k\<rparr>) = lastOpening b"
  "lastOpening (b\<lparr>successes := k\<rparr>) = lastOpening b"
  "lastOpening (b\<lparr>lastFailureTime := l\<rparr>) = lastOpening b"
  "lastOpening (b\<lparr>nextAttempt := n\<rparr>) = lastOpening b"
  "lastOpening (b\<lparr>requestWindow := rw\<rparr>) = lastOpening b"
  by (simp_all add: lastOpening_def)

lemma setState_fields:
  "state (setState cfg t s b) = s"
  "nextAttempt (setState cfg t s b) =
     (if s = OPEN then Some (t + sleepWindow cfg) else if s = CLOSED then None
      else nextAttempt b)"
  by (simp_all add: setState_def Let_def)

lemma executeBegin_keeps_invariant:
  "nextAttemptTracksOpening cfg b \<Longrightarrow> nextAttemptTracksOpening cfg (snd (executeBegin cfg t b))"
  by (cases "state b")
     (auto simp: nextAttemptTracksOpening_def executeBegin_def Let_def
        lastOpening_setState setState_fields lastOpening_updates)

lemma onSuccess_keeps_invariant:
  "nextAttemptTracksOpening cfg b \<Longrightarrow> nextAttemptTracksOpening cfg (onSuccess cfg t b)"
  by (cases "state b")
     (auto simp: nextAttemptTracksOpening_def onSuccess_def recordRequest_def Let_def
        lastOpening_setState setState_fields lastOpening_updates)

lemma onFailure_keeps_invariant:
  "nextAttemptTracksOpening cfg b \<Longrightarrow>
   nextAttemptTracksOpening cfg (snd (onFailure cfg t msg b))"
  by (cases "state b"; cases msg)
     (auto simp: nextAttemptTracksOpening_def onFailure_def recordRequest_def Let_def
        lastOpening_setState setState_fields lastOpening_updates)

lemma breakerStep_keeps_invariant:
  assumes "nextAttemptTracksOpening cfg b"
  shows "nextAttemptTracksOpening cfg (breakerStep cfg b ev)"
proof (cases ev)
  case (Begin t)
  with assms show ?thesis by (simp add: executeBegin_keeps_invariant)
next
  case (Succeed t)
  with assms show ?thesis by (simp add: onSuccess_keeps_invariant)
next
  case (Fail t msg)
  with assms show ?thesis by (simp add: onFailure_keeps_invariant)
next
  case TimerFires
  with assms show ?thesis
    by (auto simp: nextAttemptTracksOpening_def lastOpening_updates)
next
  case (ForceOpen t)
  with assms show ?thesis
    by (auto simp: nextAttemptTracksOpening_def forceOpen_def lastOpening_setState
        setState_fields)
next
  case (ForceClose t)
  with assms show ?thesis
    by (auto simp: nextAttemptTracksOpening_def forceClose_def setState_fields)
next
  case Reset
  with assms show ?thesis
    by (auto simp: nextAttemptTracksOpening_def reset_def)
qed

lemma foldl_breakerStep_keeps_invariant:
  "nextAttemptTracksOpening cfg b \<Longrightarrow>
   nextAttemptTracksOpening cfg (foldl (breakerStep cfg) b evs)"
proof (induction evs arbitrary: b)
  case Nil
  then show ?case by simp
next
  case (Cons ev evs)
  from Cons.IH[OF breakerStep_keeps_invariant[OF Cons.prems]] show ?case by simp
qed

text \<open>
  C4, as the code has it. After any sequence of breaker events (entries and continuations
  of \<open>execute\<close> in any interleaving, \<open>open\<close>, \<open>close\<close>, \<open>reset\<close>) from a new breaker,
  \<open>nextAttempt\<close> is null exactly when the state is CLOSED. When the state is OPEN or
  HALF_OPEN, \<open>nextAttempt\<close> is the time of the most recent change of state to OPEN plus
  \<open>sleepWindow\<close>: in HALF_OPEN it is still the value set when the breaker opened, since
  \<open>setState(HALF_OPEN)\<close> does not touch it.
\<close>

theorem nextAttempt_null_iff_closed:
  "(nextAttempt (breakerAfter cfg evs) = None) = (state (breakerAfter cfg evs) = CLOSED)
   \<and> (state (breakerAfter cfg evs) \<noteq> CLOSED \<longrightarrow>
        (\<exists>t. lastOpening (breakerAfter cfg evs) = Some t
            \<and> nextAttempt (breakerAfter cfg evs) = Some (t + sleepWindow cfg)))"
proof -
  have "nextAttemptTracksOpening cfg newBreaker"
    by (simp add: nextAttemptTracksOpening_def newBreaker_def)
  then have "nextAttemptTracksOpening cfg (breakerAfter cfg evs)"
    unfolding breakerAfter_def by (rule foldl_breakerStep_keeps_invariant)
  then show ?thesis
    by (auto simp: nextAttemptTracksOpening_def split: if_splits)
qed

theorem nextAttempt_null_iff_closed_witness:
  "state (breakerAfter exampleConfig
       [Begin 0, Fail 10 (Some ''boom''), Begin 20, Fail 30 (Some ''boom''), Begin 40,
        Fail 50 (Some ''boom''), Begin 6000]) = HALF_OPEN
   \<and> lastOpening (breakerAfter exampleConfig
       [Begin 0, Fail 10 (Some ''boom''), Begin 20, Fail 30 (Some ''boom''), Begin 40,
        Fail 50 (Some ''boom''), Begin 6000]) = Some 50
   \<and> nextAttempt (breakerAfter exampleConfig
       [Begin 0, Fail 10 (Some ''boom''), Begin 20, Fail 30 (Some ''boom''), Begin 40,
        Fail 50 (Some ''boom''), Begin 6000]) = Some (50 + sleepWindow exampleConfig)"
  using nextAttempt_null_iff_closed
    [of exampleConfig
        "[Begin 0, Fail 10 (Some ''boom''), Begin 20, Fail 30 (Some ''boom''), Begin 40,
          Fail 50 (Some ''boom''), Begin 6000]"]
  by (simp add: breakerAfter_def lastOpening_def breaker_eval)

text \<open>
  C4 as stated fails: three failing calls open the breaker at time 50, and the call entered
  at time 6000 is admitted; while its operation runs the state is HALF_OPEN and
  \<open>nextAttempt\<close> is still 5050.
\<close>

theorem nextAttempt_set_while_half_open:
  "state (breakerAfter exampleConfig
       [Begin 0, Fail 10 (Some ''boom''), Begin 20, Fail 30 (Some ''boom''), Begin 40,
        Fail 50 (Some ''boom''), Begin 6000]) = HALF_OPEN
   \<and> nextAttempt (breakerAfter exampleConfig
       [Begin 0, Fail 10 (Some ''boom''), Begin 20, Fail 30 (Some ''boom''), Begin 40,
        Fail 50 (Some ''boom''), Begin 6000]) = Some 5050
   \<and> \<not> ((nextAttempt (breakerAfter exampleConfig
             [Begin 0, Fail 10 (Some ''boom''), Begin 20, Fail 30 (Some ''boom''), Begin 40,
              Fail 50 (Some ''boom''), Begin 6000]) \<noteq> None)
          = (state (breakerAfter exampleConfig
             [Begin 0, Fail 10 (Some ''boom''), Begin 20, Fail 30 (Some ''boom''), Begin 40,
              Fail 50 (Some ''boom''), Begin 6000]) = OPEN))"
  by (simp add: breakerAfter_def breaker_eval)

subsection \<open>A timed-out operation is one failure\<close>

lemma executeBegin_keeps_accounts:
  "executeBegin cfg now b = (Admitted, b1) \<Longrightarrow>
     failures b1 = failures b \<and> successes b1 = successes b
     \<and> requestWindow b1 = requestWindow b
     \<and> failedRequests (metrics b1) = failedRequests (metrics b)
     \<and> successfulRequests (metrics b1) = successfulRequests (metrics b)
     \<and> timeouts (metrics b1) = timeouts (metrics b)"
  by (auto simp: executeBegin_def setState_def Let_def split: if_splits)

lemma onFailure_accounts:
  "failures (snd (onFailure cfg T msg b)) = failures b + 1
   \<and> successes (snd (onFailure cfg T msg b)) = successes b
   \<and> failedRequests (metrics (snd (onFailure cfg T msg b))) = failedRequests (metrics b) + 1
   \<and> successfulRequests (metrics (snd (onFailure cfg T msg b)))
       = successfulRequests (metrics b)
   \<and> timeouts (metrics (snd (onFailure cfg T msg b))) = timeouts (metrics b)
   \<and> lastFailureTime (snd (onFailure cfg T msg b)) = Some T
   \<and> requestWindow (snd (onFailure cfg T msg b)) =
       filter (inWindow cfg T) (requestWindow b @ [\<lparr>timestamp = T, success = False\<rparr>])"
  by (cases msg) (simp_all add: onFailure_def recordRequest_def setState_def Let_def)

lemma timesOut_executeWithTimeout:
  "timesOut cfg beh \<Longrightarrow> executeWithTimeout cfg beh b = timerCallbackRejects cfg b"
  by (cases beh) simp_all

lemma timed_out_call:
  assumes adm: "fst (executeBegin cfg now b) = Admitted"
    and to: "timesOut cfg (fst (fn w))"
    and ex: "execute cfg now fn fb (b, w) = (r, b', w')"
  shows "timeoutRecorded cfg (now + timerDelay cfg) b b'"
proof -
  obtain b1 where b1: "executeBegin cfg now b = (Admitted, b1)"
    using adm by (cases "executeBegin cfg now b") simp
  obtain beh w1 where fw: "fn w = (beh, w1)" by (cases "fn w")
  let ?b2 = "b1\<lparr>metrics := (metrics b1)\<lparr>timeouts := timeouts (metrics b1) + 1\<rparr>\<rparr>"
  from fw to have ewt: "executeWithTimeout cfg beh b1 = (Inl TimedOut, timerDelay cfg, ?b2)"
    by (simp add: timesOut_executeWithTimeout timerCallbackRejects_def)
  from ex b1 fw ewt
  have b': "b' = snd (onFailure cfg (now + timerDelay cfg) (Some ''Timeout'') ?b2)"
    by (auto simp: execute_def executeFinish_def split: option.splits prod.splits)
  from onFailure_accounts[of cfg "now + timerDelay cfg" "Some ''Timeout''" ?b2]
    executeBegin_keeps_accounts[OF b1] b'
  show ?thesis by (simp add: timeoutRecorded_def)
qed

text \<open>
  C6, as the code has it. An operation is passed to \<open>execute\<close> twice, one call after the
  other; each call is admitted (the breaker is not OPEN, or \<open>nextAttempt\<close> has been
  reached) and each time the timer callback runs before the operation settles, whether
  the operation would settle later or never. Then each call records exactly one failure,
  a timeout: \<open>failures\<close>, \<open>failedRequests\<close> and \<open>timeouts\<close> grow by one and one failed entry,
  stamped with the time at which the timer fired, is pushed onto the rolling window
  before the window is pruned; when \<open>rollingWindowSize\<close> is not negative the entry
  survives the pruning as the last of the window. After the two calls the counts have
  grown by exactly two, and no success has been recorded.
\<close>

theorem admitted_timed_out_call_is_one_failure:
  assumes "fst (executeBegin cfg t1 b) = Admitted" and "timesOut cfg (fst (fn w))"
    and "execute cfg t1 fn fb1 (b, w) = (r1, b1, w1)"
    and "fst (executeBegin cfg t2 b1) = Admitted" and "timesOut cfg (fst (fn w1))"
    and "execute cfg t2 fn fb2 (b1, w1) = (r2, b2, w2)"
  shows "timeoutRecorded cfg (t1 + timerDelay cfg) b b1
     \<and> timeoutRecorded cfg (t2 + timerDelay cfg) b1 b2
     \<and> (0 \<le> rollingWindowSize cfg \<longrightarrow>
          requestWindow b1 = filter (inWindow cfg (t1 + timerDelay cfg)) (requestWindow b)
            @ [\<lparr>timestamp = t1 + timerDelay cfg, success = False\<rparr>]
          \<and> requestWindow b2 = filter (inWindow cfg (t2 + timerDelay cfg)) (requestWindow b1)
            @ [\<lparr>timestamp = t2 + timerDelay cfg, success = False\<rparr>])
     \<and> failures b2 = failures b + 2
     \<and> failedRequests (metrics b2) = failedRequests (metrics b) + 2
     \<and> timeouts (metrics b2) = timeouts (metrics b) + 2
     \<and> successes b2 = successes b
     \<and> successfulRequests (metrics b2) = successfulRequests (metrics b)"
proof -
  have one: "timeoutRecorded cfg (t1 + timerDelay cfg) b b1"
    using assms(1,2,3) by (rule timed_out_call)
  have two: "timeoutRecorded cfg (t2 + timerDelay cfg) b1 b2"
    using assms(4,5,6) by (rule timed_out_call)
  from one two show ?thesis by (simp add: timeoutRecorded_def inWindow_def)
qed

theorem admitted_timed_out_call_is_one_failure_witness:
  "fst (executeBegin exampleConfig 0 newBreaker) = Admitted
   \<and> timesOut exampleConfig (fst (lateOp 0))
   \<and> fst (executeBegin exampleConfig 60001
        (fst (snd (execute exampleConfig 0 lateOp None (newBreaker, 0))))) = Admitted
   \<and> 0 \<le> rollingWindowSize exampleConfig
   \<and> failures (fst (snd (execute exampleConfig 0 lateOp None (newBreaker, 0)))) = 1
   \<and> failures (fst (snd (execute exampleConfig 60001 lateOp None
        (snd (execute exampleConfig 0 lateOp None (newBreaker, 0)))))) = 2
   \<and> successes (fst (snd (execute exampleConfig 60001 lateOp None
        (snd (execute exampleConfig 0 lateOp None (newBreaker, 0)))))) = 0
   \<and> map success (requestWindow (fst (snd (execute exampleConfig 60001 lateOp None
        (snd (execute exampleConfig 0 lateOp None (newBreaker, 0))))))) = [False]
   \<and> map success (requestWindow (fst (snd (execute exampleConfig 60001 lateOp None
        (snd (execute exampleConfig 0 lateOp (Some (FallbackValue 7)) (newBreaker, 0)))))))
      = [False]"
  using admitted_timed_out_call_is_one_failure
    [of exampleConfig 0 newBreaker lateOp "0::nat" None
        "fst (execute exampleConfig 0 lateOp None (newBreaker, 0))"
        "fst (snd (execute exampleConfig 0 lateOp None (newBreaker, 0)))"
        "snd (snd (execute exampleConfig 0 lateOp None (newBreaker, 0)))"
        60001 None
        "fst (execute exampleConfig 60001 lateOp None
           (snd (execute exampleConfig 0 lateOp None (newBreaker, 0))))"
        "fst (snd (execute exampleConfig 60001 lateOp None
           (snd (execute exampleConfig 0 lateOp None (newBreaker, 0)))))"
        "snd (snd (execute exampleConfig 60001 lateOp None
           (snd (execute exampleConfig 0 lateOp None (newBreaker, 0)))))"]
  by (simp add: timeoutRecorded_def breaker_eval)

text \<open>
  C6 as stated fails. With \<open>threshold: 1\<close>, an operation that never settles is passed to
  \<open>execute\<close> at time 0 and again at time 60001. The first call times out at 60000 and
  opens the breaker until 65000, so the second call is refused without invoking the
  operation: after the two calls one failure is recorded, not two, and the operation was
  invoked once. And an operation that computes for 70 s without yielding and then
  resolves, with the timeout at 60 s, is recorded as a success: the timer callback
  cannot run before the continuation of \<open>await fn()\<close> clears the timer.
\<close>

theorem second_timed_out_call_refused_when_open:
  "timesOut thresholdOne (fst (neverOp 0)) \<and> timesOut thresholdOne (fst (neverOp 1))
   \<and> state (fst (snd (execute thresholdOne 0 neverOp None (newBreaker, 0)))) = OPEN
   \<and> nextAttempt (fst (snd (execute thresholdOne 0 neverOp None (newBreaker, 0)))) = Some 65000
   \<and> fst (executeBegin thresholdOne 60001
        (fst (snd (execute thresholdOne 0 neverOp None (newBreaker, 0))))) = Refused
   \<and> failures (fst afterTwoNever) = 1
   \<and> failedRequests (metrics (fst afterTwoNever)) = 1
   \<and> timeouts (metrics (fst afterTwoNever)) = 1
   \<and> map success (requestWindow (fst afterTwoNever)) = [False]
   \<and> rejectedRequests (metrics (fst afterTwoNever)) = 1
   \<and> snd afterTwoNever = 1
   \<and> failures (fst afterTwoNever) \<noteq> 2
   \<and> timeout exampleConfig < 70000
   \<and> fst (execute exampleConfig 0 blockingOp None (newBreaker, 0)) = Inr 42
   \<and> failures (fst (snd (execute exampleConfig 0 blockingOp None (newBreaker, 0)))) = 0
   \<and> timeouts (metrics (fst (snd (execute exampleConfig 0 blockingOp None (newBreaker, 0))))) = 0
   \<and> map success (requestWindow (fst (snd (execute exampleConfig 0 blockingOp None
        (newBreaker, 0))))) = [True]"
  by (simp add: afterTwoNever_def breaker_eval)

section \<open>Properties of the browser pool\<close>

lemmas pool_eval =
  examplePoolConfig_def smallPoolConfig_def okAcquire_def okRelease_def failingRelease_def
  onePage_def okCheck_def failingCheck_def newPool_def getPage_def getPageBody_def
  getAvailableBrowser_def createBrowser_def releasePage_def releaseBody_def
  closesComplete_def removeBrowser_def shutdown_def performHealthCheck_def
  healthCheckBegin_def healthCheckFinish_def probesSettle_def checkConnected_def
  probeSettled_def removeUnhealthy_def cleanupStaleSessions_def sumActive_def Let_def

subsection \<open>\<open>releasePage\<close>\<close>

lemma releasePage_unregistered:
  "map_of (sessions p) sid = None \<Longrightarrow> releasePage env sid p = p"
  by (simp add: releasePage_def)

lemma releaseBody_complete:
  "closesComplete env \<Longrightarrow>
     releaseBody env sid p =
       Inr (p\<lparr>sessions := AList.delete sid (sessions p),
              poolMetrics := (poolMetrics p)\<lparr>activePages :=
                activePages (poolMetrics p) - 1\<rparr>\<rparr>)"
  by (auto simp: closesComplete_def releaseBody_def)

lemma releaseBody_throws:
  "\<not> closesComplete env \<Longrightarrow> \<exists>msg. releaseBody env sid p = Inl msg"
  by (cases "pageClose env"; cases "contextClose env")
     (auto simp: closesComplete_def releaseBody_def)

lemma releasePage_registered:
  "map_of (sessions p) sid = Some s \<Longrightarrow>
     releasePage env sid p =
       (if closesComplete env
        then p\<lparr>sessions := AList.delete sid (sessions p),
               poolMetrics := (poolMetrics p)\<lparr>activePages :=
                 activePages (poolMetrics p) - 1\<rparr>\<rparr>
        else p)"
  using releaseBody_throws[of env sid p]
  by (auto simp: releasePage_def releaseBody_complete)

text \<open>
  C10. For a registered session: if a close that \<open>releasePage\<close> attempts throws, the \<open>try\<close>
  block throws, \<open>releasePage\<close> returns all the same, and the pool is exactly as before, the
  session still registered and \<open>activePages\<close> not decremented. If the closes complete, the
  session is removed and \<open>activePages\<close> is decremented by one. So the session is removed
  exactly when the closes complete.
\<close>

theorem releasePage_keeps_session_when_close_throws:
  assumes "map_of (sessions p) sid = Some s"
  shows "(\<not> closesComplete env \<longrightarrow>
            (\<exists>msg. releaseBody env sid p = Inl msg) \<and> releasePage env sid p = p)
       \<and> (closesComplete env \<longrightarrow>
            map_of (sessions (releasePage env sid p)) sid = None
            \<and> activePages (poolMetrics (releasePage env sid p))
                = activePages (poolMetrics p) - 1)
       \<and> ((map_of (sessions (releasePage env sid p)) sid = None) = closesComplete env)"
  using assms releaseBody_throws[of env sid p]
  by (auto simp: releasePage_registered delete_conv')

theorem releasePage_keeps_session_when_close_throws_witness:
  "map_of (sessions (onePage examplePoolConfig)) ''s1'' \<noteq> None
   \<and> \<not> closesComplete failingRelease
   \<and> releasePage failingRelease ''s1'' (onePage examplePoolConfig) = onePage examplePoolConfig
   \<and> map fst (sessions (releasePage failingRelease ''s1'' (onePage examplePoolConfig))) = [''s1'']
   \<and> activePages (poolMetrics (releasePage failingRelease ''s1'' (onePage examplePoolConfig))) = 1
   \<and> closesComplete okRelease
   \<and> sessions (releasePage okRelease ''s1'' (onePage examplePoolConfig)) = []"
  using releasePage_keeps_session_when_close_throws
    [of "onePage examplePoolConfig" "''s1''"
        "the (map_of (sessions (onePage examplePoolConfig)) ''s1'')" failingRelease]
  by (simp add: pool_eval)

text \<open>
  C9. After a release that succeeded (the session was registered and its closes
  completed, so that it was removed and \<open>activePages\<close> decremented once), a second
  \<open>releasePage\<close> of the same session id changes nothing in the pool, whatever the driver
  would do: nothing is removed, no counter is decremented, and nothing is thrown, since
  \<open>releasePage\<close> returns without reaching its \<open>try\<close> block.
\<close>

theorem releasePage_twice_is_once:
  assumes "map_of (sessions p) sid = Some s" and "closesComplete env"
  shows "map_of (sessions (releasePage env sid p)) sid = None
       \<and> activePages (poolMetrics (releasePage env sid p)) = activePages (poolMetrics p) - 1
       \<and> (\<forall>env'. releasePage env' sid (releasePage env sid p) = releasePage env sid p)"
  using assms
  by (auto simp: releasePage_registered delete_conv' intro: releasePage_unregistered)

theorem releasePage_twice_is_once_witness:
  "map_of (sessions (onePage examplePoolConfig)) ''s1'' \<noteq> None
   \<and> closesComplete okRelease
   \<and> sessions (releasePage okRelease ''s1'' (onePage examplePoolConfig)) = []
   \<and> activePages (poolMetrics (releasePage okRelease ''s1'' (onePage examplePoolConfig))) = 0
   \<and> releasePage failingRelease ''s1'' (releasePage okRelease ''s1'' (onePage examplePoolConfig))
       = releasePage okRelease ''s1'' (onePage examplePoolConfig)
   \<and> activePages (poolMetrics (releasePage okRelease ''s1''
        (releasePage okRelease ''s1'' (onePage examplePoolConfig)))) = 0"
  using releasePage_twice_is_once
    [of "onePage examplePoolConfig" "''s1''"
        "the (map_of (sessions (onePage examplePoolConfig)) ''s1'')" okRelease]
  by (simp add: pool_eval)


subsection \<open>What each operation leaves alone\<close>

lemma releasePage_frame:
  "browsers (releasePage env sid p) = browsers p
   \<and> isShuttingDown (releasePage env sid p) = isShuttingDown p
   \<and> healthCheckTimer (releasePage env sid p) = healthCheckTimer p
   \<and> issued (releasePage env sid p) = issued p"
  by (auto simp: releasePage_def releaseBody_def split: option.splits driver_result.splits)

lemma releasePage_sessions:
  "sessions (releasePage env sid p) =
     (if closesComplete env then AList.delete sid (sessions p) else sessions p)"
proof (cases "map_of (sessions p) sid")
  case None
  then have "sid \<notin> fst ` set (sessions p)" by (simp add: map_of_eq_None_iff)
  with None show ?thesis by (simp add: releasePage_unregistered)
next
  case (Some s)
  then show ?thesis by (simp add: releasePage_registered)
qed

lemma fold_releasePage_frame:
  "browsers (fold (\<lambda>sid. releasePage (env sid) sid) ks p) = browsers p
   \<and> isShuttingDown (fold (\<lambda>sid. releasePage (env sid) sid) ks p) = isShuttingDown p
   \<and> healthCheckTimer (fold (\<lambda>sid. releasePage (env sid) sid) ks p) = healthCheckTimer p
   \<and> issued (fold (\<lambda>sid. releasePage (env sid) sid) ks p) = issued p"
  by (induction ks arbitrary: p) (simp_all add: releasePage_frame)

lemma fold_releasePage_sessions:
  "sessions (fold (\<lambda>sid. releasePage (env sid) sid) ks p) =
     filter (\<lambda>(k, s). k \<notin> set ks \<or> \<not> closesComplete (env k)) (sessions p)"
proof (induction ks arbitrary: p)
  case Nil
  then show ?case by (simp add: case_prod_unfold)
next
  case (Cons k ks)
  show ?case
    by (auto simp: Cons.IH releasePage_sessions AList.delete_eq intro!: filter_cong)
qed

lemma removeBrowser_browsers:
  "browsers (removeBrowser bid p) = AList.delete bid (browsers p)"
proof (cases "map_of (browsers p) bid")
  case None
  then have "bid \<notin> fst ` set (browsers p)" by (simp add: map_of_eq_None_iff)
  with None show ?thesis by (simp add: removeBrowser_def)
next
  case (Some b)
  then show ?thesis by (simp add: removeBrowser_def)
qed

lemma removeBrowser_frame:
  "sessions (removeBrowser bid p) = sessions p
   \<and> isShuttingDown (removeBrowser bid p) = isShuttingDown p
   \<and> healthCheckTimer (removeBrowser bid p) = healthCheckTimer p
   \<and> issued (removeBrowser bid p) = issued p
   \<and> activePages (poolMetrics (removeBrowser bid p)) = activePages (poolMetrics p)"
  by (simp add: removeBrowser_def split: option.splits)

lemma fold_removeBrowser_browsers:
  "browsers (fold removeBrowser ks p) = filter (\<lambda>(k, b). k \<notin> set ks) (browsers p)"
proof (induction ks arbitrary: p)
  case Nil
  then show ?case by (simp add: case_prod_unfold)
next
  case (Cons k ks)
  show ?case
    by (auto simp: Cons.IH removeBrowser_browsers AList.delete_eq intro!: filter_cong)
qed

lemma fold_removeBrowser_frame:
  "sessions (fold removeBrowser ks p) = sessions p
   \<and> isShuttingDown (fold removeBrowser ks p) = isShuttingDown p
   \<and> healthCheckTimer (fold removeBrowser ks p) = healthCheckTimer p
   \<and> issued (fold removeBrowser ks p) = issued p
   \<and> activePages (poolMetrics (fold removeBrowser ks p)) = activePages (poolMetrics p)"
  by (induction ks arbitrary: p) (simp_all add: removeBrowser_frame)

lemma shutdown_result:
  "isShuttingDown (shutdown env p) \<and> browsers (shutdown env p) = []
   \<and> sessions (shutdown env p) = filter (\<lambda>(k, s). \<not> closesComplete (env k)) (sessions p)
   \<and> healthCheckTimer (shutdown env p) \<noteq> TimerRunning"
  apply (simp add: shutdown_def Let_def fold_removeBrowser_frame fold_removeBrowser_browsers
      fold_releasePage_frame fold_releasePage_sessions)
  apply (force simp: filter_empty_conv intro!: filter_cong)
  done

lemma shutdown_again:
  assumes "isShuttingDown p" "browsers p = []" "sessions p = []" "healthCheckTimer p \<noteq> TimerRunning"
  shows "shutdown env p = p"
  using assms by (cases "healthCheckTimer p") (simp_all add: shutdown_def)

lemma createBrowser_frame:
  "createBrowser t l p = (r, p') \<Longrightarrow>
     sessions p' = sessions p \<and> isShuttingDown p' = isShuttingDown p
     \<and> healthCheckTimer p' = healthCheckTimer p
     \<and> activePages (poolMetrics p') = activePages (poolMetrics p)"
  by (auto simp: createBrowser_def Let_def split: driver_result.splits)

lemma getAvailableBrowser_frame:
  "getAvailableBrowser cfg env p = (r, t, p') \<Longrightarrow>
     sessions p' = sessions p \<and> isShuttingDown p' = isShuttingDown p
     \<and> healthCheckTimer p' = healthCheckTimer p
     \<and> activePages (poolMetrics p') = activePages (poolMetrics p)"
  by (auto simp: getAvailableBrowser_def split: option.splits if_splits prod.splits
      dest: createBrowser_frame)

lemma getPage_shutting_down:
  "isShuttingDown p \<Longrightarrow>
     getPage cfg sid env p =
       (Inl PoolShuttingDown,
        p\<lparr>poolMetrics := (poolMetrics p)\<lparr>
             poolTotalRequests := poolTotalRequests (poolMetrics p) + 1,
             poolFailedRequests := poolFailedRequests (poolMetrics p) + 1\<rparr>\<rparr>)"
  by (simp add: getPage_def getPageBody_def)

lemma getPage_isShuttingDown:
  "isShuttingDown (snd (getPage cfg sid env p)) = isShuttingDown p"
  by (auto simp: getPage_def getPageBody_def Let_def
      split: prod.splits sum.splits driver_result.splits dest: getAvailableBrowser_frame)

lemma prewarm_isShuttingDown:
  "isShuttingDown (snd (prewarm n launches i p)) = isShuttingDown p"
proof (induction n arbitrary: i p)
  case 0
  then show ?case by simp
next
  case (Suc n)
  obtain r p' where c: "createBrowser (fst (launches i)) (snd (launches i)) p = (r, p')"
    by (cases "createBrowser (fst (launches i)) (snd (launches i)) p")
  from createBrowser_frame[OF c] Suc.IH[of "Suc i" p'] c show ?case
    by (cases r) simp_all
qed

lemma initialize_isShuttingDown:
  "isShuttingDown (snd (initialize cfg launches p)) = isShuttingDown p"
  using prewarm_isShuttingDown[of "nat (min 2 (maxBrowsers cfg))" launches 0 p]
  by (auto simp: initialize_def startHealthMonitoring_def split: prod.splits sum.splits)

lemma replenish_isShuttingDown:
  "replenish cfg xs p = Some (r, p') \<Longrightarrow> isShuttingDown p' = isShuttingDown p"
proof (induction xs arbitrary: p)
  case Nil
  then show ?case by (auto split: if_splits)
next
  case (Cons x xs)
  obtain t l where x: "x = (t, l)" by (cases x)
  obtain r1 p1 where c: "createBrowser t l p = (r1, p1)" by (cases "createBrowser t l p")
  from Cons.prems x c createBrowser_frame[OF c] Cons.IH[of p1] show ?case
    by (cases r1) (auto split: if_splits)
qed

lemma performHealthCheck_isShuttingDown:
  "performHealthCheck cfg env p = Some (r, p') \<Longrightarrow> isShuttingDown p' = isShuttingDown p"
  by (auto simp: performHealthCheck_def healthCheckBegin_def healthCheckFinish_def
      probesSettle_def removeUnhealthy_def cleanupStaleSessions_def
      fold_removeBrowser_frame fold_releasePage_frame
      split: option.splits prod.splits sum.splits dest!: replenish_isShuttingDown)

lemma poolStep_isShuttingDown:
  "poolStep cfg op p = Some p' \<Longrightarrow> isShuttingDown p \<Longrightarrow> isShuttingDown p'"
proof (cases op)
  case (PerformHealthCheck env)
  assume "poolStep cfg op p = Some p'" "isShuttingDown p"
  with PerformHealthCheck show ?thesis
    by (auto dest: performHealthCheck_isShuttingDown)
qed (auto simp: getPage_isShuttingDown releasePage_frame handleBrowserDisconnect_def
      handlePageCrash_def initialize_isShuttingDown shutdown_result)

lemma poolRun_isShuttingDown:
  "poolRun cfg ops p = Some p' \<Longrightarrow> isShuttingDown p \<Longrightarrow> isShuttingDown p'"
proof (induction ops arbitrary: p)
  case Nil
  then show ?case by simp
next
  case (Cons op ops)
  then show ?case
    by (auto split: option.splits dest: poolStep_isShuttingDown)
qed

subsection \<open>\<open>shutdown\<close>\<close>

text \<open>
  What a call of \<open>shutdown\<close> that no other call overlaps leaves. There is no handle, and
  the sessions left are exactly those for which a close attempted by \<open>releasePage\<close> threw.
  Whatever operations follow, one at a time, every \<open>getPage\<close> fails with
  \<open>PoolShuttingDown\<close>. If the closes of every registered session complete, no session is
  left and a second \<open>shutdown\<close> changes nothing.
\<close>

lemma shutdown_removes_handles_and_refuses_acquires:
  "browsers (shutdown env p) = []
   \<and> sessions (shutdown env p) = filter (\<lambda>(sid, s). \<not> closesComplete (env sid)) (sessions p)
   \<and> (\<forall>ops p'. poolRun cfg ops (shutdown env p) = Some p' \<longrightarrow>
        (\<forall>sid aenv. fst (getPage cfg sid aenv p') = Inl PoolShuttingDown))
   \<and> (list_all (\<lambda>(sid, s). closesComplete (env sid)) (sessions p) \<longrightarrow>
        sessions (shutdown env p) = []
        \<and> (\<forall>env'. shutdown env' (shutdown env p) = shutdown env p))"
proof (intro conjI allI impI)
  show "browsers (shutdown env p) = []" by (simp add: shutdown_result)
  show s: "sessions (shutdown env p) = filter (\<lambda>(sid, s). \<not> closesComplete (env sid)) (sessions p)"
    by (simp add: shutdown_result)
  {
    fix ops p' sid aenv
    assume "poolRun cfg ops (shutdown env p) = Some p'"
    then have "isShuttingDown p'"
      by (rule poolRun_isShuttingDown) (simp add: shutdown_result)
    then show "fst (getPage cfg sid aenv p') = Inl PoolShuttingDown"
      by (simp add: getPage_shutting_down)
  }
  assume a: "list_all (\<lambda>(sid, s). closesComplete (env sid)) (sessions p)"
  then show e: "sessions (shutdown env p) = []"
    by (auto simp: s filter_empty_conv list_all_iff)
  fix env'
  have h: "isShuttingDown (shutdown env p)" "browsers (shutdown env p) = []"
    "healthCheckTimer (shutdown env p) \<noteq> TimerRunning"
    by (simp_all add: shutdown_result)
  show "shutdown env' (shutdown env p) = shutdown env p"
    by (rule shutdown_again[OF h(1) h(2) e h(3)])
qed

lemma shutdown_removes_handles_and_refuses_acquires_example:
  "list_all (\<lambda>(sid, s). closesComplete okRelease) (sessions (onePage examplePoolConfig))
   \<and> map fst (sessions (onePage examplePoolConfig)) = [''s1'']
   \<and> sessions (shutdown (\<lambda>sid. okRelease) (onePage examplePoolConfig)) = []
   \<and> browsers (shutdown (\<lambda>sid. okRelease) (onePage examplePoolConfig)) = []
   \<and> fst (getPage examplePoolConfig ''s2'' (okAcquire 3000)
          (shutdown (\<lambda>sid. okRelease) (onePage examplePoolConfig))) = Inl PoolShuttingDown
   \<and> shutdown (\<lambda>sid. failingRelease) (shutdown (\<lambda>sid. okRelease) (onePage examplePoolConfig))
       = shutdown (\<lambda>sid. okRelease) (onePage examplePoolConfig)"
  using shutdown_removes_handles_and_refuses_acquires
    [of "\<lambda>sid. okRelease" "onePage examplePoolConfig" examplePoolConfig]
  by (simp add: pool_eval)

text \<open>
  C8 fails on the code. When \<open>page.close()\<close> throws while \<open>shutdown\<close> releases a session,
  the session is still registered and counted in \<open>activePages\<close> after \<open>shutdown\<close> has
  returned: not every session has been released. A second \<open>shutdown\<close>, during which the
  closes complete, is then not a no-op, since it removes the session. And a \<open>getPage\<close>
  that tested \<open>isShuttingDown\<close> before \<open>shutdown\<close> was called, and whose launch completes
  after \<open>shutdown\<close> has returned, inserts a handle into the pool that was shut down.
\<close>

theorem shutdown_leaves_session_when_close_throws:
  "map fst (sessions (onePage examplePoolConfig)) = [''s1'']
   \<and> \<not> closesComplete failingRelease
   \<and> isShuttingDown (shutdown (\<lambda>sid. failingRelease) (onePage examplePoolConfig))
   \<and> browsers (shutdown (\<lambda>sid. failingRelease) (onePage examplePoolConfig)) = []
   \<and> map fst (sessions (shutdown (\<lambda>sid. failingRelease) (onePage examplePoolConfig))) = [''s1'']
   \<and> activePages (poolMetrics (shutdown (\<lambda>sid. failingRelease) (onePage examplePoolConfig))) = 1
   \<and> shutdown (\<lambda>sid. okRelease) (shutdown (\<lambda>sid. failingRelease) (onePage examplePoolConfig))
       \<noteq> shutdown (\<lambda>sid. failingRelease) (onePage examplePoolConfig)
   \<and> sessions (shutdown (\<lambda>sid. okRelease)
        (shutdown (\<lambda>sid. failingRelease) (onePage examplePoolConfig))) = []
   \<and> isShuttingDown (shutdown (\<lambda>sid. okRelease) newPool)
   \<and> fst (handleStep examplePoolConfig (Launched 1000 Done) (shutdown (\<lambda>sid. okRelease) newPool))
       = Some 0
   \<and> map (\<lambda>(i, b). (i, inst b))
        (browsers (snd (handleStep examplePoolConfig (Launched 1000 Done)
           (shutdown (\<lambda>sid. okRelease) newPool)))) = [(1000, 0)]"
  by (simp add: pool_eval)

subsection \<open>Sequences of \<open>getPage\<close> and \<open>releasePage\<close>\<close>


lemma length_update:
  "length (AList.update k v al) = (if map_of al k = None then Suc (length al) else length al)"
  by (induction al) auto

lemma set_update_subset: "set (AList.update k v al) \<subseteq> insert (k, v) (set al)"
  by (induction al) auto

lemma length_delete_registered:
  "map_of al k = Some v \<Longrightarrow> length (AList.delete k al) < length al"
  by (induction al) (auto simp: less_Suc_eq_le length_delete_le split: if_splits)

lemma length_delete_distinct:
  "map_of al k = Some v \<Longrightarrow> distinct (map fst al) \<Longrightarrow> Suc (length (AList.delete k al)) = length al"
  by (induction al) (auto simp: image_iff split: if_splits)

lemma sumActive_noContexts: "noContexts p \<Longrightarrow> sumActive p = 0"
  by (auto simp: noContexts_def sumActive_def)

lemma createBrowser_browsers:
  "createBrowser t l p = (r, p') \<Longrightarrow>
     length (browsers p') \<le> Suc (length (browsers p)) \<and> (noContexts p \<longrightarrow> noContexts p')"
proof (cases l)
  case Done
  assume c: "createBrowser t l p = (r, p')"
  let ?b = "\<lparr>browserId = t, inst = issued p, contexts = [], isHealthy = True\<rparr>"
  from c Done have b: "browsers p' = AList.update t ?b (browsers p)"
    by (auto simp: createBrowser_def Let_def)
  have "noContexts p'" if "noContexts p"
    unfolding noContexts_def b
  proof (intro ballI)
    fix x assume "x \<in> set (AList.update t ?b (browsers p))"
    with set_update_subset[of t ?b "browsers p"] have "x = (t, ?b) \<or> x \<in> set (browsers p)"
      by auto
    with that show "case x of (i, b) \<Rightarrow> contexts b = []"
      by (auto simp: noContexts_def)
  qed
  with b show ?thesis by (simp add: length_update)
next
  case (Failed msg)
  assume "createBrowser t l p = (r, p')"
  with Failed show ?thesis by (simp add: createBrowser_def)
qed

lemma getAvailableBrowser_browsers:
  assumes "getAvailableBrowser cfg env p = (r, t, p')"
  shows "(int (length (browsers p)) \<le> maxBrowsers cfg \<longrightarrow> int (length (browsers p')) \<le> maxBrowsers cfg)
       \<and> (noContexts p \<longrightarrow> noContexts p')"
  using assms
  by (auto simp: getAvailableBrowser_def split: option.splits if_splits prod.splits
      dest!: createBrowser_browsers)

lemma getPage_cases:
  assumes "getPage cfg sid env p = (r, p')"
  shows "(int (length (browsers p)) \<le> maxBrowsers cfg \<longrightarrow> int (length (browsers p')) \<le> maxBrowsers cfg)
       \<and> (noContexts p \<longrightarrow> noContexts p')
       \<and> ((\<exists>e. r = Inl e \<and> sessions p' = sessions p
              \<and> activePages (poolMetrics p') = activePages (poolMetrics p))
          \<or> (\<exists>pg s. r = Inr pg \<and> sessions p' = AList.update sid s (sessions p)
              \<and> activePages (poolMetrics p') = activePages (poolMetrics p) + 1))"
proof -
  let ?p0 = "p\<lparr>poolMetrics := (poolMetrics p)\<lparr>poolTotalRequests := poolTotalRequests (poolMetrics p) + 1\<rparr>\<rparr>"
  obtain r1 t p1 where g: "getAvailableBrowser cfg env ?p0 = (r1, t, p1)"
    by (cases "getAvailableBrowser cfg env ?p0") auto
  from getAvailableBrowser_browsers[OF g] getAvailableBrowser_frame[OF g]
  have b: "(int (length (browsers p)) \<le> maxBrowsers cfg \<longrightarrow> int (length (browsers p1)) \<le> maxBrowsers cfg)"
    "noContexts p \<longrightarrow> noContexts p1" "sessions p1 = sessions p"
    "activePages (poolMetrics p1) = activePages (poolMetrics p)"
    by (simp_all add: noContexts_def)
  from assms g b show ?thesis
    by (auto simp: getPage_def getPageBody_def Let_def noContexts_def
        split: if_splits sum.splits driver_result.splits)
qed

lemma getPage_shape:
  "shape cfg p \<Longrightarrow> shape cfg (snd (getPage cfg sid env p))"
  using getPage_cases[of cfg sid env p "fst (getPage cfg sid env p)" "snd (getPage cfg sid env p)"]
  by (auto simp: shape_def length_update)

lemma releasePage_shape:
  "shape cfg p \<Longrightarrow> shape cfg (releasePage env sid p)"
proof (cases "map_of (sessions p) sid")
  case None
  assume "shape cfg p"
  with None show ?thesis by (simp add: releasePage_unregistered)
next
  case (Some s)
  assume "shape cfg p"
  with Some length_delete_registered[OF Some] show ?thesis
    by (auto simp: releasePage_registered shape_def noContexts_def)
qed

lemma acquire_release_shape:
  "list_all acquireOrRelease ops \<Longrightarrow> shape cfg p0 \<Longrightarrow>
     \<exists>p. poolRun cfg ops p0 = Some p \<and> shape cfg p"
proof (induction ops arbitrary: p0)
  case Nil
  then show ?case by simp
next
  case (Cons op ops)
  from Cons.prems(1) have ar: "acquireOrRelease op" and rest: "list_all acquireOrRelease ops"
    by simp_all
  from ar Cons.prems(2) obtain p1 where s: "poolStep cfg op p0 = Some p1" and sh: "shape cfg p1"
    by (cases op) (auto simp: getPage_shape releasePage_shape)
  from Cons.IH[OF rest sh] s show ?case by simp
qed

lemma getPage_exact:
  "exact p \<Longrightarrow> map_of (sessions p) sid = None \<Longrightarrow> exact (snd (getPage cfg sid env p))"
  using getPage_cases[of cfg sid env p "fst (getPage cfg sid env p)" "snd (getPage cfg sid env p)"]
  by (auto simp: exact_def length_update distinct_update)

lemma releasePage_exact:
  "exact p \<Longrightarrow> exact (releasePage env sid p)"
proof (cases "map_of (sessions p) sid")
  case None
  assume "exact p"
  with None show ?thesis by (simp add: releasePage_unregistered)
next
  case (Some s)
  assume e: "exact p"
  then have d: "distinct (map fst (sessions p))" by (simp add: exact_def)
  from e Some length_delete_distinct[OF Some d] show ?thesis
    by (auto simp: releasePage_registered exact_def distinct_delete)
qed

lemma acquire_release_exact:
  "list_all acquireOrRelease ops \<Longrightarrow> freshAcquires cfg ops p0 \<Longrightarrow> exact p0 \<Longrightarrow>
     poolRun cfg ops p0 = Some p \<Longrightarrow> exact p"
proof (induction ops arbitrary: p0)
  case Nil
  then show ?case by simp
next
  case (Cons op ops)
  from Cons.prems(1) have ar: "acquireOrRelease op" and rest: "list_all acquireOrRelease ops"
    by simp_all
  from ar Cons.prems(2,3) obtain p1 where s: "poolStep cfg op p0 = Some p1" and e: "exact p1"
    and f: "freshAcquires cfg ops p1"
    by (cases op) (auto simp: getPage_exact releasePage_exact)
  from Cons.IH[OF rest f e] s Cons.prems(4) show ?case by simp
qed

text \<open>
  What a run of \<open>getPage\<close> and \<open>releasePage\<close> calls keeps when no two calls overlap, from
  an empty pool with \<open>maxBrowsers\<close> not negative, whatever the driver does. The number of
  handles is at most \<open>maxBrowsers\<close>. No call touches the \<open>contexts\<close> list of a handle, so
  every per-handle count is 0 however many sessions are registered. The pool-wide
  \<open>activePages\<close> is never less than the number of registered sessions, and it is equal to
  it when no \<open>getPage\<close> is called with a session id that is registered at that time.
\<close>

lemma acquire_release_keeps_bounds:
  assumes "0 \<le> maxBrowsers cfg" and "list_all acquireOrRelease ops"
  shows "\<exists>p. poolRun cfg ops newPool = Some p
     \<and> int (length (browsers p)) \<le> maxBrowsers cfg
     \<and> (\<forall>(i, b) \<in> set (browsers p). contexts b = []) \<and> sumActive p = 0
     \<and> int (length (sessions p)) \<le> activePages (poolMetrics p)
     \<and> (freshAcquires cfg ops newPool \<longrightarrow> int (length (sessions p)) = activePages (poolMetrics p))"
proof -
  from assms(1) have "shape cfg newPool"
    by (simp add: shape_def noContexts_def newPool_def)
  from acquire_release_shape[OF assms(2) this] obtain p where
    r: "poolRun cfg ops newPool = Some p" and s: "shape cfg p" by blast
  have "exact newPool" by (simp add: exact_def newPool_def)
  with acquire_release_exact[OF assms(2) _ _ r]
  have "freshAcquires cfg ops newPool \<longrightarrow> exact p" by blast
  with r s sumActive_noContexts[of p] show ?thesis
    by (auto simp: shape_def exact_def noContexts_def)
qed

lemma acquire_release_keeps_bounds_example:
  "0 \<le> maxBrowsers examplePoolConfig
   \<and> list_all acquireOrRelease
        [GetPage ''s1'' (okAcquire 1000), GetPage ''s2'' (okAcquire 1001),
         ReleasePage ''s1'' okRelease]
   \<and> freshAcquires examplePoolConfig
        [GetPage ''s1'' (okAcquire 1000), GetPage ''s2'' (okAcquire 1001),
         ReleasePage ''s1'' okRelease] newPool
   \<and> (case poolRun examplePoolConfig
          [GetPage ''s1'' (okAcquire 1000), GetPage ''s2'' (okAcquire 1001),
           ReleasePage ''s1'' okRelease] newPool of
        None \<Rightarrow> False
      | Some p \<Rightarrow> length (browsers p) = 1 \<and> sumActive p = 0
          \<and> map fst (sessions p) = [''s2''] \<and> activePages (poolMetrics p) = 1)"
  using acquire_release_keeps_bounds
    [of examplePoolConfig
        "[GetPage ''s1'' (okAcquire 1000), GetPage ''s2'' (okAcquire 1001),
          ReleasePage ''s1'' okRelease]"]
  by (simp add: pool_eval)

text \<open>
  C2 fails on the code. After one \<open>getPage\<close> on a new pool one session is registered and
  \<open>activePages\<close> is 1, while the \<open>contexts\<close> list of the only handle, whose length is the
  count that \<open>getAvailableBrowser\<close> compares with \<open>maxPages\<close>, is empty: the sum of the
  per-handle counts is 0, not 1. \<open>getPage\<close> adds nothing to the list and \<open>releasePage\<close>
  removes nothing from it. So with \<open>maxPages = 1\<close> a second \<open>getPage\<close> is served by the same
  handle, and once a health check has written the driver's contexts into the list, the
  release of the session leaves the count at 1 with no session registered. The bound on
  the handles fails when calls overlap: two \<open>getPage\<close> calls on an empty pool with
  \<open>maxBrowsers = 1\<close> both find no handle and pass the test of \<open>browsers.size\<close> before
  either launch has completed, and the pool ends with two handles.
\<close>

theorem session_registered_but_handle_count_zero:
  "poolRun examplePoolConfig [GetPage ''s1'' (okAcquire 1000)] newPool
     = Some (onePage examplePoolConfig)
   \<and> length (sessions (onePage examplePoolConfig)) = 1
   \<and> activePages (poolMetrics (onePage examplePoolConfig)) = 1
   \<and> map (\<lambda>(i, b). length (contexts b)) (browsers (onePage examplePoolConfig)) = [0]
   \<and> sumActive (onePage examplePoolConfig) = 0
   \<and> sumActive (onePage examplePoolConfig) \<noteq> length (sessions (onePage examplePoolConfig))
   \<and> maxPages smallPoolConfig = 1
   \<and> map fst (sessions (snd (getPage smallPoolConfig ''s2'' (okAcquire 1001)
        (onePage smallPoolConfig)))) = [''s1'', ''s2'']
   \<and> map (\<lambda>(i, b). length (contexts b))
        (browsers (snd (getPage smallPoolConfig ''s2'' (okAcquire 1001)
           (onePage smallPoolConfig)))) = [0]
   \<and> sumActive (releasePage okRelease ''s1'' fullPool) = 1
   \<and> sessions (releasePage okRelease ''s1'' fullPool) = []
   \<and> maxBrowsers smallPoolConfig = 1
   \<and> fst (handleStep smallPoolConfig Scans newPool) = None
   \<and> int (length (browsers newPool)) < maxBrowsers smallPoolConfig
   \<and> length (browsers (snd (handleRun smallPoolConfig
        [Scans, Scans, Launched 1000 Done, Launched 1001 Done] newPool))) = 2"
  by (simp add: fullPool_def pool_eval)

subsection \<open>Waiting for a browser\<close>











subsection \<open>Handles across operations\<close>


lemma evolves_refl: "browsers p' = browsers p \<Longrightarrow> issued p \<le> issued p' \<Longrightarrow> evolves s p p'"
  by (force simp: evolves_def)

lemma evolves_subset:
  "set (browsers p') \<subseteq> set (browsers p) \<Longrightarrow> issued p \<le> issued p' \<Longrightarrow> evolves s p p'"
  by (force simp: evolves_def)

lemma evolves_trans:
  assumes "evolves s p p'" "evolves s p' p''"
  shows "evolves s p p''"
  unfolding evolves_def
proof (intro conjI ballI)
  from assms show "issued p \<le> issued p''" by (simp add: evolves_def)
next
  fix x assume x: "x \<in> set (browsers p'')"
  obtain i'' b'' where xe: "x = (i'', b'')" by (cases x)
  from assms(2) x xe consider
    (new) "issued p' \<le> inst b''" "inst b'' < issued p''"
    | (old) i' b' where "(i', b') \<in> set (browsers p')" "inst b' = inst b''" "s \<longrightarrow> isHealthy b'' \<longrightarrow> isHealthy b'"
    by (fastforce simp: evolves_def)
  then show "case x of (i', b') \<Rightarrow>
         (issued p \<le> inst b' \<and> inst b' < issued p'') \<or>
         (\<exists>(i, b) \<in> set (browsers p). inst b = inst b' \<and> (s \<longrightarrow> isHealthy b' \<longrightarrow> isHealthy b))"
  proof cases
    case new
    with assms(1) xe show ?thesis by (simp add: evolves_def)
  next
    case old
    from assms(1) old(1) consider
      (new') "issued p \<le> inst b'" "inst b' < issued p'"
      | (old') i b where "(i, b) \<in> set (browsers p)" "inst b = inst b'" "s \<longrightarrow> isHealthy b' \<longrightarrow> isHealthy b"
      by (fastforce simp: evolves_def)
    then show ?thesis
    proof cases
      case new'
      with assms(2) old xe show ?thesis by (simp add: evolves_def)
    next
      case old'
      with old xe show ?thesis by force
    qed
  qed
qed

lemma evolves_weaken: "evolves True p p' \<Longrightarrow> evolves s p p'"
  by (fastforce simp: evolves_def)

lemma evolves_wellIssued:
  "evolves s p p' \<Longrightarrow> \<forall>r \<in> insts p. r < issued p \<Longrightarrow> \<forall>r \<in> insts p'. r < issued p'"
  by (fastforce simp: evolves_def insts_def)

lemma evolves_retired:
  assumes "evolves s p p'" "retired r p"
  shows "retired r p'"
proof -
  from assms have lt: "r < issued p'" by (simp add: evolves_def retired_def)
  have "r \<notin> insts p'"
  proof
    assume "r \<in> insts p'"
    then obtain i' b' where m: "(i', b') \<in> set (browsers p')" and r: "inst b' = r"
      by (auto simp: insts_def)
    from assms(1) m have "(issued p \<le> inst b' \<and> inst b' < issued p') \<or>
        (\<exists>(i, b) \<in> set (browsers p). inst b = inst b')"
      by (fastforce simp: evolves_def)
    with r assms(2) show False
      by (force simp: retired_def insts_def)
  qed
  with lt show ?thesis by (simp add: retired_def)
qed

lemma evolves_marked: "evolves True p p' \<Longrightarrow> marked r p \<Longrightarrow> marked r p'"
  by (fastforce simp: evolves_def marked_def)

lemma retired_marked: "retired r p \<Longrightarrow> marked r p"
  by (force simp: retired_def marked_def insts_def)

subsection \<open>Each operation: handles descend from handles or are new\<close>

lemma update_member: "(k, v) \<in> set (AList.update k v al)"
  by (induction al) auto

lemma map_entry_members:
  "x \<in> set (AList.map_entry k f al) \<Longrightarrow> x \<in> set al \<or> (\<exists>v. (k, v) \<in> set al \<and> x = (k, f v))"
  by (induction al) (auto split: if_splits)

lemma createBrowser_evolves:
  assumes "createBrowser t l p = (r, p')"
  shows "evolves s p p'"
proof (cases l)
  case Done
  let ?b = "\<lparr>browserId = t, inst = issued p, contexts = [], isHealthy = True\<rparr>"
  from assms Done have b: "browsers p' = AList.update t ?b (browsers p)"
    and i: "issued p' = Suc (issued p)"
    by (auto simp: createBrowser_def Let_def)
  show ?thesis
    unfolding evolves_def b i
  proof (intro conjI ballI)
    fix x assume "x \<in> set (AList.update t ?b (browsers p))"
    with set_update_subset[of t ?b "browsers p"] have "x = (t, ?b) \<or> x \<in> set (browsers p)"
      by auto
    then show "case x of (i', b') \<Rightarrow>
         (issued p \<le> inst b' \<and> inst b' < Suc (issued p)) \<or>
         (\<exists>(i, b) \<in> set (browsers p). inst b = inst b' \<and> (s \<longrightarrow> isHealthy b' \<longrightarrow> isHealthy b))"
      by force
  qed simp
next
  case (Failed msg)
  with assms show ?thesis by (simp add: createBrowser_def evolves_refl)
qed

lemma getAvailableBrowser_evolves:
  "getAvailableBrowser cfg env p = (r, t, p') \<Longrightarrow> evolves s p p'"
  by (auto simp: getAvailableBrowser_def evolves_refl
      split: option.splits if_splits prod.splits dest: createBrowser_evolves)

lemma getPage_browsers:
  "\<exists>r t p1. getAvailableBrowser cfg env
       (p\<lparr>poolMetrics := (poolMetrics p)\<lparr>poolTotalRequests :=
            poolTotalRequests (poolMetrics p) + 1\<rparr>\<rparr>) = (r, t, p1)
     \<and> (browsers (snd (getPage cfg sid env p)) = browsers p1
          \<and> issued p1 \<le> issued (snd (getPage cfg sid env p))
        \<or> browsers (snd (getPage cfg sid env p)) = browsers p
          \<and> issued (snd (getPage cfg sid env p)) = issued p)"
proof -
  let ?p0 = "p\<lparr>poolMetrics := (poolMetrics p)\<lparr>poolTotalRequests :=
            poolTotalRequests (poolMetrics p) + 1\<rparr>\<rparr>"
  obtain r t p1 where g: "getAvailableBrowser cfg env ?p0 = (r, t, p1)"
    by (cases "getAvailableBrowser cfg env ?p0") auto
  then show ?thesis
    by (auto simp: getPage_def getPageBody_def Let_def
        split: if_splits sum.splits driver_result.splits)
qed

lemma getPage_evolves: "evolves s p (snd (getPage cfg sid env p))"
proof -
  let ?p0 = "p\<lparr>poolMetrics := (poolMetrics p)\<lparr>poolTotalRequests :=
            poolTotalRequests (poolMetrics p) + 1\<rparr>\<rparr>"
  from getPage_browsers[of cfg env p sid] obtain r t p1 where
    g: "getAvailableBrowser cfg env ?p0 = (r, t, p1)"
    and c: "browsers (snd (getPage cfg sid env p)) = browsers p1
          \<and> issued p1 \<le> issued (snd (getPage cfg sid env p))
        \<or> browsers (snd (getPage cfg sid env p)) = browsers p
          \<and> issued (snd (getPage cfg sid env p)) = issued p"
    by blast
  have e0: "evolves s p ?p0" by (simp add: evolves_refl)
  from getAvailableBrowser_evolves[OF g] have e1: "evolves s ?p0 p1" .
  from c show ?thesis
  proof
    assume a: "browsers (snd (getPage cfg sid env p)) = browsers p1
          \<and> issued p1 \<le> issued (snd (getPage cfg sid env p))"
    then have "evolves s p1 (snd (getPage cfg sid env p))" by (simp add: evolves_refl)
    with e0 e1 show ?thesis by (blast intro: evolves_trans)
  next
    assume "browsers (snd (getPage cfg sid env p)) = browsers p
          \<and> issued (snd (getPage cfg sid env p)) = issued p"
    then show ?thesis by (simp add: evolves_refl)
  qed
qed

lemma releasePage_evolves: "evolves s p (releasePage env sid p)"
  by (simp add: evolves_refl releasePage_frame)

lemma handleBrowserDisconnect_evolves: "evolves s p (handleBrowserDisconnect bid p)"
  unfolding evolves_def
proof (intro conjI ballI)
  fix x assume "x \<in> set (browsers (handleBrowserDisconnect bid p))"
  then have "x \<in> set (AList.map_entry bid (\<lambda>b. b\<lparr>isHealthy := False\<rparr>) (browsers p))"
    by (simp add: handleBrowserDisconnect_def)
  from map_entry_members[OF this]
  show "case x of (i', b') \<Rightarrow>
         (issued p \<le> inst b' \<and> inst b' < issued (handleBrowserDisconnect bid p)) \<or>
         (\<exists>(i, b) \<in> set (browsers p). inst b = inst b' \<and> (s \<longrightarrow> isHealthy b' \<longrightarrow> isHealthy b))"
    by force
qed (simp add: handleBrowserDisconnect_def)

lemma handlePageCrash_evolves: "evolves s p (handlePageCrash env sid p)"
  by (simp add: handlePageCrash_def evolves_refl releasePage_frame)

lemma prewarm_evolves: "evolves s p (snd (prewarm n launches i p))"
proof (induction n arbitrary: i p)
  case 0
  then show ?case by (simp add: evolves_refl)
next
  case (Suc n)
  obtain r p' where c: "createBrowser (fst (launches i)) (snd (launches i)) p = (r, p')"
    by (cases "createBrowser (fst (launches i)) (snd (launches i)) p")
  show ?case
  proof (cases r)
    case (Inl e)
    with c createBrowser_evolves[OF c] show ?thesis by simp
  next
    case (Inr j)
    with c have "snd (prewarm (Suc n) launches i p) = snd (prewarm n launches (Suc i) p')" by simp
    with createBrowser_evolves[OF c, of s] Suc.IH[of p' "Suc i"] show ?thesis
      by (auto intro: evolves_trans)
  qed
qed

lemma initialize_evolves: "evolves s p (snd (initialize cfg launches p))"
proof -
  let ?q = "snd (prewarm (nat (min 2 (maxBrowsers cfg))) launches 0 p)"
  have "browsers (snd (initialize cfg launches p)) = browsers ?q
      \<and> issued (snd (initialize cfg launches p)) = issued ?q"
    by (auto simp: initialize_def startHealthMonitoring_def split: prod.splits sum.splits)
  then have "evolves s ?q (snd (initialize cfg launches p))" by (simp add: evolves_refl)
  with prewarm_evolves[of s p "nat (min 2 (maxBrowsers cfg))" launches 0] show ?thesis
    by (blast intro: evolves_trans)
qed

lemma shutdown_evolves: "evolves s p (shutdown env p)"
proof -
  have "issued (shutdown env p) = issued p"
    by (simp add: shutdown_def Let_def fold_removeBrowser_frame fold_releasePage_frame)
  then show ?thesis by (simp add: evolves_def shutdown_result)
qed

lemma replenish_evolves:
  "replenish cfg xs p = Some (r, p') \<Longrightarrow> evolves s p p'"
proof (induction xs arbitrary: p)
  case Nil
  then show ?case by (auto simp: evolves_refl split: if_splits)
next
  case (Cons x xs)
  obtain t l where x: "x = (t, l)" by (cases x)
  obtain r1 p1 where c: "createBrowser t l p = (r1, p1)" by (cases "createBrowser t l p")
  show ?case
  proof (cases "int (length (browsers p)) < min 2 (maxBrowsers cfg) \<and> \<not> isShuttingDown p")
    case False
    with Cons.prems x show ?thesis by (auto simp: evolves_refl)
  next
    case True
    show ?thesis
    proof (cases r1)
      case (Inl e)
      with True Cons.prems x c createBrowser_evolves[OF c, of s] show ?thesis by auto
    next
      case (Inr j)
      with True Cons.prems x c have "replenish cfg xs p1 = Some (r, p')" by simp
      from Cons.IH[OF this] createBrowser_evolves[OF c, of s] show ?thesis
        by (blast intro: evolves_trans)
    qed
  qed
qed

lemma cleanupStaleSessions_frame:
  "browsers (cleanupStaleSessions cfg env p) = browsers p
   \<and> issued (cleanupStaleSessions cfg env p) = issued p
   \<and> isShuttingDown (cleanupStaleSessions cfg env p) = isShuttingDown p"
  by (simp add: cleanupStaleSessions_def fold_releasePage_frame)

lemma removeUnhealthy_browsers:
  "browsers (removeUnhealthy p) =
     filter (\<lambda>(k, b). k \<notin> fst ` {x \<in> set (browsers p). \<not> isHealthy (snd x)}) (browsers p)
   \<and> issued (removeUnhealthy p) = issued p"
  by (auto simp: removeUnhealthy_def fold_removeBrowser_browsers fold_removeBrowser_frame
      case_prod_unfold intro!: filter_cong)

lemma checked_browsers:
  "issued (checked env p) = issued p \<and>
   map fst (browsers (checked env p)) = map fst (browsers p) \<and>
   map (\<lambda>(i, b). inst b) (browsers (checked env p)) = map (\<lambda>(i, b). inst b) (browsers p) \<and>
   (\<forall>(i, b) \<in> set (browsers (checked env p)).
      isHealthy b = healthyVerdict (probeOf env (inst b)))"
proof -
  let ?probing = "map (\<lambda>(i, b). (i, inst b))
        (filter (\<lambda>(i, b). connected (probeOf env (inst b))) (browsers p))"
  let ?f = "\<lambda>(i, b). (i, checkConnected (probeOf env (inst b)) b)"
  let ?g = "\<lambda>(i, b). (i, if (i, inst b) \<in> set ?probing
                            then probeSettled (probeOf env (inst b)) b else b)"
  have b: "browsers (checked env p) = map ?g (map ?f (browsers p))"
    and i: "issued (checked env p) = issued p"
    by (simp_all add: checked_def healthCheckBegin_def probesSettle_def)
  have ci: "inst (checkConnected pr b) = inst b" for pr b
    by (simp add: checkConnected_def)
  have si: "inst (probeSettled pr b) = inst b" for pr b
    by (simp add: probeSettled_def split: driver_result.splits)
  have h: "isHealthy (snd (?g (?f x))) = healthyVerdict (probeOf env (inst (snd x)))"
    if "x \<in> set (browsers p)" for x
  proof (cases "connected (probeOf env (inst (snd x)))")
    case True
    with that have "(fst x, inst (snd x)) \<in> set ?probing" by force
    with True show ?thesis
      by (cases x) (auto simp: ci checkConnected_def probeSettled_def healthyVerdict_def
          split: driver_result.splits)
  next
    case False
    then have "(fst x, inst (snd x)) \<notin> set ?probing" by auto
    with False show ?thesis
      by (cases x) (simp add: ci checkConnected_def healthyVerdict_def)
  qed
  have "map fst (map ?g (map ?f (browsers p))) = map fst (browsers p)"
    by (simp add: case_prod_unfold comp_def)
  moreover have "map (\<lambda>(i, b). inst b) (map ?g (map ?f (browsers p)))
      = map (\<lambda>(i, b). inst b) (browsers p)"
    by (simp add: case_prod_unfold comp_def ci si)
  moreover have "\<forall>(i, b) \<in> set (map ?g (map ?f (browsers p))).
      isHealthy b = healthyVerdict (probeOf env (inst b))"
  proof -
    have "isHealthy (snd (?g (?f x))) = healthyVerdict (probeOf env (inst (snd (?g (?f x)))))"
      if "x \<in> set (browsers p)" for x
      using h[OF that] by (cases x) (simp add: ci si)
    then have "\<forall>y \<in> set (map ?g (map ?f (browsers p))).
        isHealthy (snd y) = healthyVerdict (probeOf env (inst (snd y)))"
      by auto
    then show ?thesis by (simp add: case_prod_unfold)
  qed
  ultimately show ?thesis using b i by simp
qed

lemma performHealthCheck_unfold:
  "performHealthCheck cfg env p =
     (case replenish cfg (replenishments env) (removeUnhealthy (checked env p)) of
        None \<Rightarrow> None
      | Some (Inl e, p') \<Rightarrow> Some (Inl e, p')
      | Some (Inr u, p') \<Rightarrow> Some (Inr (), cleanupStaleSessions cfg env p'))"
  by (simp add: performHealthCheck_def healthCheckFinish_def checked_def split: prod.splits)

lemma checked_evolves: "evolves False p (checked env p)"
proof -
  let ?c = "checked env p"
  have eq: "map (\<lambda>(i, b). inst b) (browsers ?c) = map (\<lambda>(i, b). inst b) (browsers p)"
    using checked_browsers[of env p] by blast
  have i: "issued ?c = issued p"
    using checked_browsers[of env p] by blast
  have "set (map (\<lambda>(i, b). inst b) (browsers ?c)) = set (map (\<lambda>(i, b). inst b) (browsers p))"
    using eq by (rule arg_cong)
  then have img: "(\<lambda>(i, b). inst b) ` set (browsers ?c) = (\<lambda>(i, b). inst b) ` set (browsers p)"
    by (simp only: set_map)
  show ?thesis
    unfolding evolves_def
  proof (intro conjI ballI)
    show "issued p \<le> issued ?c" by (simp only: i)
  next
    fix x assume x: "x \<in> set (browsers ?c)"
    obtain i' b' where xe: "x = (i', b')" by (cases x)
    from x xe have "inst b' \<in> (\<lambda>(i, b). inst b) ` set (browsers ?c)" by force
    with img have "inst b' \<in> (\<lambda>(i, b). inst b) ` set (browsers p)" by (simp only:)
    then obtain y where y: "y \<in> set (browsers p)" "inst b' = (\<lambda>(i, b). inst b) y" by blast
    obtain i0 b0 where ye: "y = (i0, b0)" by (cases y)
    from y ye have "(i0, b0) \<in> set (browsers p)" "inst b0 = inst b'" by simp_all
    then have "\<exists>(i, b) \<in> set (browsers p). inst b = inst b' \<and> (False \<longrightarrow> isHealthy b' \<longrightarrow> isHealthy b)"
      by blast
    with xe show "case x of (i', b') \<Rightarrow>
         (issued p \<le> inst b' \<and> inst b' < issued ?c) \<or>
         (\<exists>(i, b) \<in> set (browsers p). inst b = inst b' \<and> (False \<longrightarrow> isHealthy b' \<longrightarrow> isHealthy b))"
      by simp
  qed
qed

lemma removeUnhealthy_evolves: "evolves s p (removeUnhealthy p)"
  by (rule evolves_subset) (simp_all add: removeUnhealthy_browsers)

lemma removeUnhealthy_checked_retires:
  assumes "r < issued p" and "\<not> healthyVerdict (probeOf env r)"
  shows "retired r (removeUnhealthy (checked env p))"
proof -
  let ?c = "checked env p"
  have "r \<notin> insts (removeUnhealthy ?c)"
  proof
    assume "r \<in> insts (removeUnhealthy ?c)"
    then obtain k b where m: "(k, b) \<in> set (browsers (removeUnhealthy ?c))" and r: "inst b = r"
      by (auto simp: insts_def)
    from m have mc: "(k, b) \<in> set (browsers ?c)"
      and keep: "k \<notin> fst ` {x \<in> set (browsers ?c). \<not> isHealthy (snd x)}"
      by (auto simp: removeUnhealthy_browsers)
    from checked_browsers[of env p] mc r assms(2) have "\<not> isHealthy b" by auto
    with mc keep show False by force
  qed
  with assms(1) checked_browsers[of env p] show ?thesis
    by (simp add: retired_def removeUnhealthy_browsers)
qed

lemma performHealthCheck_evolves:
  assumes "performHealthCheck cfg env p = Some (res, p')"
  shows "evolves False p p'"
proof -
  let ?q = "removeUnhealthy (checked env p)"
  from assms obtain r1 p1 where rep: "replenish cfg (replenishments env) ?q = Some (r1, p1)"
    and p': "p' = p1 \<or> p' = cleanupStaleSessions cfg env p1"
    by (auto simp: performHealthCheck_unfold split: option.splits sum.splits)
  have "evolves False p ?q"
    using checked_evolves removeUnhealthy_evolves by (blast intro: evolves_trans)
  with replenish_evolves[OF rep] have e: "evolves False p p1"
    by (blast intro: evolves_trans)
  from p' show ?thesis
  proof
    assume "p' = p1" with e show ?thesis by simp
  next
    assume "p' = cleanupStaleSessions cfg env p1"
    then have "evolves False p1 p'" by (simp add: evolves_refl cleanupStaleSessions_frame)
    with e show ?thesis by (blast intro: evolves_trans)
  qed
qed

lemma performHealthCheck_retires:
  assumes "performHealthCheck cfg env p = Some (res, p')"
    and "r < issued p" and "\<not> healthyVerdict (probeOf env r)"
  shows "retired r p'"
proof -
  let ?q = "removeUnhealthy (checked env p)"
  from assms(1) obtain r1 p1 where rep: "replenish cfg (replenishments env) ?q = Some (r1, p1)"
    and p': "p' = p1 \<or> p' = cleanupStaleSessions cfg env p1"
    by (auto simp: performHealthCheck_unfold split: option.splits sum.splits)
  from removeUnhealthy_checked_retires[OF assms(2,3)] replenish_evolves[OF rep]
  have r1: "retired r p1" by (blast intro: evolves_retired)
  from p' show ?thesis
  proof
    assume "p' = p1" with r1 show ?thesis by simp
  next
    assume "p' = cleanupStaleSessions cfg env p1"
    with r1 show ?thesis
      by (simp add: retired_def insts_def cleanupStaleSessions_frame)
  qed
qed

lemma poolStep_evolves:
  assumes "poolStep cfg op p = Some p'"
  shows "evolves (\<not> isHealthCheck op) p p'"
proof (cases op)
  case (GetPage sid env)
  with assms show ?thesis using getPage_evolves[of _ p cfg sid env] by auto
next
  case (ReleasePage sid env)
  with assms show ?thesis using releasePage_evolves by auto
next
  case (PerformHealthCheck env)
  with assms show ?thesis by (auto dest: performHealthCheck_evolves)
next
  case (BrowserDisconnect bid)
  with assms show ?thesis using handleBrowserDisconnect_evolves by auto
next
  case (PageCrash sid env)
  with assms show ?thesis using handlePageCrash_evolves by auto
next
  case (Initialize launches)
  with assms show ?thesis using initialize_evolves[of _ p cfg launches] by auto
next
  case (Shutdown env)
  with assms show ?thesis using shutdown_evolves by auto
qed

subsection \<open>Instances stay distinct\<close>

lemma distinct_update_fresh:
  "distinct (map g al) \<Longrightarrow> g (k, v) \<notin> g ` set al \<Longrightarrow> distinct (map g (AList.update k v al))"
proof (induction al)
  case Nil
  then show ?case by simp
next
  case (Cons x al)
  show ?case
  proof (cases "fst x = k")
    case True
    with Cons.prems show ?thesis by auto
  next
    case False
    from Cons.prems have d: "distinct (map g al)" and n: "g (k, v) \<notin> g ` set al"
      and x: "g x \<notin> g ` set al" and xk: "g x \<noteq> g (k, v)"
      by auto
    from set_update_subset[of k v al] x xk have "g x \<notin> g ` set (AList.update k v al)"
      by auto
    with False Cons.IH[OF d n] show ?thesis by simp
  qed
qed

lemma map_entry_same:
  "(\<And>v. g (k, f v) = g (k, v)) \<Longrightarrow> map g (AList.map_entry k f al) = map g al"
  by (induction al) auto

lemma createBrowser_sound:
  assumes "createBrowser t l p = (r, p')" and "sound p"
  shows "sound p'"
proof (cases l)
  case Done
  let ?b = "\<lparr>browserId = t, inst = issued p, contexts = [], isHealthy = True\<rparr>"
  from assms(1) Done have b: "browsers p' = AList.update t ?b (browsers p)"
    by (auto simp: createBrowser_def Let_def)
  from assms(2) have "(\<lambda>(i, b). inst b) (t, ?b) \<notin> (\<lambda>(i, b). inst b) ` set (browsers p)"
    by (auto simp: sound_def insts_def)
  with assms(2) have "distinct (map (\<lambda>(i, b). inst b) (AList.update t ?b (browsers p)))"
    by (intro distinct_update_fresh) (simp_all add: sound_def)
  with evolves_wellIssued[OF createBrowser_evolves[OF assms(1), of True]] assms(2) b
  show ?thesis by (simp add: sound_def)
next
  case (Failed msg)
  with assms show ?thesis by (simp add: createBrowser_def)
qed

lemma sound_same:
  "browsers p' = browsers p \<Longrightarrow> issued p \<le> issued p' \<Longrightarrow> sound p \<Longrightarrow> sound p'"
  by (force simp: sound_def insts_def)

lemma getAvailableBrowser_sound:
  "getAvailableBrowser cfg env p = (r, t, p') \<Longrightarrow> sound p \<Longrightarrow> sound p'"
  by (auto simp: getAvailableBrowser_def split: option.splits if_splits prod.splits
      dest: createBrowser_sound)

lemma getPage_sound:
  assumes "sound p"
  shows "sound (snd (getPage cfg sid env p))"
proof -
  let ?p0 = "p\<lparr>poolMetrics := (poolMetrics p)\<lparr>poolTotalRequests :=
            poolTotalRequests (poolMetrics p) + 1\<rparr>\<rparr>"
  from getPage_browsers[of cfg env p sid] obtain r t p1 where
    g: "getAvailableBrowser cfg env ?p0 = (r, t, p1)"
    and c: "browsers (snd (getPage cfg sid env p)) = browsers p1
          \<and> issued p1 \<le> issued (snd (getPage cfg sid env p))
        \<or> browsers (snd (getPage cfg sid env p)) = browsers p
          \<and> issued (snd (getPage cfg sid env p)) = issued p"
    by blast
  from assms have "sound ?p0" by (simp add: sound_def insts_def)
  from getAvailableBrowser_sound[OF g this] have "sound p1" .
  with c assms show ?thesis by (auto intro: sound_same)
qed

lemma prewarm_sound: "sound p \<Longrightarrow> sound (snd (prewarm n launches i p))"
proof (induction n arbitrary: i p)
  case 0
  then show ?case by simp
next
  case (Suc n)
  obtain r p' where c: "createBrowser (fst (launches i)) (snd (launches i)) p = (r, p')"
    by (cases "createBrowser (fst (launches i)) (snd (launches i)) p")
  from createBrowser_sound[OF c Suc.prems] have s: "sound p'" .
  show ?case
  proof (cases r)
    case (Inl e)
    with c s show ?thesis by simp
  next
    case (Inr j)
    with c Suc.IH[OF s, of "Suc i"] show ?thesis by simp
  qed
qed

lemma replenish_sound:
  "replenish cfg xs p = Some (r, p') \<Longrightarrow> sound p \<Longrightarrow> sound p'"
proof (induction xs arbitrary: p)
  case Nil
  then show ?case by (auto split: if_splits)
next
  case (Cons x xs)
  obtain t l where x: "x = (t, l)" by (cases x)
  obtain r1 p1 where c: "createBrowser t l p = (r1, p1)" by (cases "createBrowser t l p")
  from createBrowser_sound[OF c Cons.prems(2)] have s1: "sound p1" .
  show ?case
  proof (cases "int (length (browsers p)) < min 2 (maxBrowsers cfg) \<and> \<not> isShuttingDown p")
    case False
    with Cons.prems x show ?thesis by auto
  next
    case True
    show ?thesis
    proof (cases r1)
      case (Inl e)
      with True Cons.prems x c s1 show ?thesis by auto
    next
      case (Inr j)
      with True Cons.prems x c have "replenish cfg xs p1 = Some (r, p')" by simp
      from Cons.IH[OF this s1] show ?thesis .
    qed
  qed
qed

lemma performHealthCheck_sound:
  assumes "performHealthCheck cfg env p = Some (res, p')" and "sound p"
  shows "sound p'"
proof -
  let ?c = "checked env p"
  let ?q = "removeUnhealthy ?c"
  from assms(1) obtain r1 p1 where rep: "replenish cfg (replenishments env) ?q = Some (r1, p1)"
    and p': "p' = p1 \<or> p' = cleanupStaleSessions cfg env p1"
    by (auto simp: performHealthCheck_unfold split: option.splits sum.splits)
  from assms(2) checked_browsers[of env p] have dc: "distinct (map (\<lambda>(i, b). inst b) (browsers ?c))"
    by (simp add: sound_def)
  then have "distinct (map (\<lambda>(i, b). inst b) (browsers ?q))"
    by (simp add: removeUnhealthy_browsers distinct_map_filter)
  moreover from assms(2) have "\<forall>r \<in> insts ?q. r < issued ?q"
    using evolves_wellIssued[OF evolves_trans[OF checked_evolves removeUnhealthy_evolves], of p env]
    by (simp add: sound_def)
  ultimately have "sound ?q" by (simp add: sound_def)
  from replenish_sound[OF rep this] have "sound p1" .
  with p' show ?thesis
    by (auto intro: sound_same simp: cleanupStaleSessions_frame)
qed

lemma handleBrowserDisconnect_sound:
  assumes "sound p"
  shows "sound (handleBrowserDisconnect bid p)"
proof -
  let ?g = "\<lambda>(i, b). inst b"
  let ?f = "\<lambda>b. b\<lparr>isHealthy := False\<rparr>"
  have "map ?g (AList.map_entry bid ?f (browsers p)) = map ?g (browsers p)"
    by (rule map_entry_same) simp
  then have m: "map ?g (browsers (handleBrowserDisconnect bid p)) = map ?g (browsers p)"
    by (simp add: handleBrowserDisconnect_def)
  from assms have "\<forall>r \<in> insts p. r < issued p" by (simp add: sound_def)
  with handleBrowserDisconnect_evolves[of True p bid]
  have w: "\<forall>r \<in> insts (handleBrowserDisconnect bid p). r < issued (handleBrowserDisconnect bid p)"
    by (rule evolves_wellIssued)
  from assms have "distinct (map ?g (browsers p))" by (simp add: sound_def)
  with m have "distinct (map ?g (browsers (handleBrowserDisconnect bid p)))" by (simp only:)
  with w show ?thesis unfolding sound_def by (intro conjI)
qed

lemma initialize_sound:
  assumes "sound p"
  shows "sound (snd (initialize cfg launches p))"
proof -
  let ?q = "snd (prewarm (nat (min 2 (maxBrowsers cfg))) launches 0 p)"
  have "browsers (snd (initialize cfg launches p)) = browsers ?q
      \<and> issued (snd (initialize cfg launches p)) = issued ?q"
    by (auto simp: initialize_def startHealthMonitoring_def split: prod.splits sum.splits)
  with prewarm_sound[OF assms, of "nat (min 2 (maxBrowsers cfg))" launches 0]
  show ?thesis by (auto intro: sound_same)
qed

lemma shutdown_sound: "sound (shutdown env p)"
  by (simp add: sound_def insts_def shutdown_result)

lemma releasePage_sound: "sound p \<Longrightarrow> sound (releasePage env sid p)"
  by (rule sound_same) (simp_all add: releasePage_frame)

lemma handlePageCrash_sound: "sound p \<Longrightarrow> sound (handlePageCrash env sid p)"
  by (rule sound_same) (simp_all add: handlePageCrash_def releasePage_frame)

lemma poolStep_sound:
  assumes "poolStep cfg op p = Some p'" and "sound p"
  shows "sound p'"
proof (cases op)
  case (GetPage sid env)
  with assms getPage_sound[of p cfg sid env] show ?thesis by auto
next
  case (ReleasePage sid env)
  with assms releasePage_sound[of p env sid] show ?thesis by auto
next
  case (PerformHealthCheck env)
  with assms show ?thesis by (auto dest: performHealthCheck_sound)
next
  case (BrowserDisconnect bid)
  with assms handleBrowserDisconnect_sound[of p bid] show ?thesis by auto
next
  case (PageCrash sid env)
  with assms handlePageCrash_sound[of p env sid] show ?thesis by auto
next
  case (Initialize launches)
  with assms initialize_sound[of p cfg launches] show ?thesis by auto
next
  case (Shutdown env)
  with assms shutdown_sound[of env p] show ?thesis by auto
qed

subsection \<open>Which browser an acquire returns\<close>


lemma findAvailable_Some:
  "findAvailable cfg bs = Some j \<Longrightarrow> \<exists>(i, b) \<in> set bs. inst b = j \<and> isHealthy b"
  by (induction bs) (auto split: if_splits)

lemma wait_returns_found:
  "waitForAvailableBrowser cfg view lat tmo start k now = (Inr j, T) \<Longrightarrow>
     \<exists>k'. findAvailable cfg (view k') = Some j"
proof (induction cfg view lat tmo start k now rule: waitForAvailableBrowser.induct)
  case (1 cfg view lateness tmo startTime k now)
  show ?case
  proof (cases "now - startTime < tmo")
    case False
    with "1.prems" show ?thesis by (simp add: waitForAvailableBrowser.simps)
  next
    case True
    show ?thesis
    proof (cases "findAvailable cfg (view k)")
      case None
      with True "1.prems" have
        "waitForAvailableBrowser cfg view lateness tmo startTime (Suc k)
           (now + 100 + int (lateness k)) = (Inr j, T)"
        by (simp add: waitForAvailableBrowser.simps)
      from "1.IH"[OF True None this] show ?thesis .
    next
      case (Some i)
      with True "1.prems" have "i = j" by (simp add: waitForAvailableBrowser.simps)
      with Some show ?thesis by blast
    qed
  qed
qed

lemma createBrowser_Inr:
  assumes "createBrowser t l p = (Inr j, p')"
  shows "j = issued p \<and>
     browsers p' = AList.update t \<lparr>browserId = t, inst = issued p, contexts = [],
        isHealthy = True\<rparr> (browsers p)"
proof (cases l)
  case Done
  with assms show ?thesis by (auto simp: createBrowser_def Let_def)
next
  case (Failed msg)
  with assms show ?thesis by (simp add: createBrowser_def)
qed

lemma getAvailableBrowser_cases:
  assumes "getAvailableBrowser cfg env p = (Inr j, t, p')"
  shows "(p' = p \<and> (\<exists>(i, b) \<in> set (browsers p). inst b = j \<and> isHealthy b))
       \<or> (j = issued p \<and> createBrowser (clock env) (launch env) p = (Inr j, p'))"
proof (cases "findAvailable cfg (browsers p)")
  case (Some i)
  with assms have "i = j" "p' = p" by (simp_all add: getAvailableBrowser_def)
  with Some findAvailable_Some[of cfg "browsers p" j] show ?thesis by simp
next
  case None
  show ?thesis
  proof (cases "int (length (browsers p)) < maxBrowsers cfg")
    case True
    with None assms have c: "createBrowser (clock env) (launch env) p = (Inr j, p')"
      by (auto simp: getAvailableBrowser_def split: prod.splits)
    with createBrowser_Inr[OF c] show ?thesis by simp
  next
    case False
    with None assms obtain T where
      w: "waitForAvailableBrowser cfg (\<lambda>k. browsers p) (lateness env) 10000 (clock env) 0
            (clock env) = (Inr j, T)" and "p' = p"
      by (auto simp: getAvailableBrowser_def split: prod.splits)
    from wait_returns_found[OF w] None show ?thesis by simp
  qed
qed

lemma getAvailableBrowser_healthy:
  assumes "getAvailableBrowser cfg env p = (Inr j, t, p')"
  shows "\<exists>(i, b) \<in> set (browsers p'). inst b = j \<and> isHealthy b"
  using getAvailableBrowser_cases[OF assms]
proof
  assume "p' = p \<and> (\<exists>(i, b) \<in> set (browsers p). inst b = j \<and> isHealthy b)"
  then show ?thesis by simp
next
  assume a: "j = issued p \<and> createBrowser (clock env) (launch env) p = (Inr j, p')"
  let ?b = "\<lparr>browserId = clock env, inst = issued p, contexts = [], isHealthy = True\<rparr>"
  from a have c: "createBrowser (clock env) (launch env) p = (Inr j, p')" and j: "j = issued p"
    by simp_all
  from createBrowser_Inr[OF c] have "browsers p' = AList.update (clock env) ?b (browsers p)"
    by simp
  with update_member[of "clock env" ?b "browsers p"] have "(clock env, ?b) \<in> set (browsers p')"
    by simp
  moreover have "inst ?b = j \<and> isHealthy ?b" using j by simp
  ultimately show ?thesis by blast
qed

lemma getAvailableBrowser_skips_marked:
  assumes "marked r p" and "getAvailableBrowser cfg env p = (Inr j, t, p')"
  shows "j \<noteq> r"
  using getAvailableBrowser_cases[OF assms(2)] assms(1)
  by (auto simp: marked_def)

lemma getPage_session:
  assumes "getPage cfg sid env p = (Inr pg, p')"
  shows "\<exists>s j t p1.
     getAvailableBrowser cfg env
       (p\<lparr>poolMetrics := (poolMetrics p)\<lparr>poolTotalRequests :=
            poolTotalRequests (poolMetrics p) + 1\<rparr>\<rparr>) = (Inr j, t, p1)
     \<and> map_of (sessions p') sid = Some s \<and> sBrowser s = j \<and> sPage s = pg
     \<and> browsers p' = browsers p1"
proof -
  let ?p0 = "p\<lparr>poolMetrics := (poolMetrics p)\<lparr>poolTotalRequests :=
            poolTotalRequests (poolMetrics p) + 1\<rparr>\<rparr>"
  obtain r t p1 where g: "getAvailableBrowser cfg env ?p0 = (r, t, p1)"
    by (cases "getAvailableBrowser cfg env ?p0") auto
  with assms show ?thesis
    by (auto simp: getPage_def getPageBody_def Let_def update_conv'
        split: if_splits sum.splits driver_result.splits)
qed

lemma getPage_skips_marked:
  assumes "marked r p" and "getPage cfg sid env p = (Inr pg, p')"
    and "map_of (sessions p') sid = Some s"
  shows "sBrowser s \<noteq> r"
proof -
  let ?p0 = "p\<lparr>poolMetrics := (poolMetrics p)\<lparr>poolTotalRequests :=
            poolTotalRequests (poolMetrics p) + 1\<rparr>\<rparr>"
  from getPage_session[OF assms(2)] assms(3) obtain j t p1 where
    g: "getAvailableBrowser cfg env ?p0 = (Inr j, t, p1)" and j: "sBrowser s = j"
    by auto
  from assms(1) have "marked r ?p0" by (simp add: marked_def)
  from getAvailableBrowser_skips_marked[OF this g] j show ?thesis by simp
qed

lemma getPage_healthy:
  assumes "getPage cfg sid env p = (Inr pg, p')"
  shows "\<exists>s. map_of (sessions p') sid = Some s \<and> sPage s = pg
     \<and> (\<exists>(i, b) \<in> set (browsers p'). inst b = sBrowser s \<and> isHealthy b)"
proof -
  from getPage_session[OF assms] obtain s j t p1 where
    g: "getAvailableBrowser cfg env
       (p\<lparr>poolMetrics := (poolMetrics p)\<lparr>poolTotalRequests :=
            poolTotalRequests (poolMetrics p) + 1\<rparr>\<rparr>) = (Inr j, t, p1)"
    and s: "map_of (sessions p') sid = Some s" "sBrowser s = j" "sPage s = pg"
    and b: "browsers p' = browsers p1"
    by blast
  from getAvailableBrowser_healthy[OF g] s b show ?thesis by simp
qed

lemma poolRun_sound: "poolRun cfg ops p = Some p' \<Longrightarrow> sound p \<Longrightarrow> sound p'"
proof (induction ops arbitrary: p)
  case Nil
  then show ?case by simp
next
  case (Cons op ops)
  then show ?case
    by (auto split: option.splits dest: poolStep_sound)
qed

lemma poolRun_retired: "poolRun cfg ops p = Some p' \<Longrightarrow> retired r p \<Longrightarrow> retired r p'"
proof (induction ops arbitrary: p)
  case Nil
  then show ?case by simp
next
  case (Cons op ops)
  from Cons.prems(1) obtain p1 where s: "poolStep cfg op p = Some p1"
    and r: "poolRun cfg ops p1 = Some p'"
    by (auto split: option.splits)
  from evolves_retired[OF poolStep_evolves[OF s] Cons.prems(2)] have "retired r p1" .
  from Cons.IH[OF r this] show ?case .
qed

lemma poolRun_marked:
  "poolRun cfg ops p = Some p' \<Longrightarrow> list_all (\<lambda>op. \<not> isHealthCheck op) ops \<Longrightarrow>
     marked r p \<Longrightarrow> marked r p'"
proof (induction ops arbitrary: p)
  case Nil
  then show ?case by simp
next
  case (Cons op ops)
  from Cons.prems(1) obtain p1 where s: "poolStep cfg op p = Some p1"
    and r: "poolRun cfg ops p1 = Some p'"
    by (auto split: option.splits)
  from Cons.prems(2) have n: "\<not> isHealthCheck op" and rest: "list_all (\<lambda>op. \<not> isHealthCheck op) ops"
    by simp_all
  from poolStep_evolves[OF s] n have "evolves True p p1" by simp
  from evolves_marked[OF this Cons.prems(3)] have "marked r p1" .
  from Cons.IH[OF r rest this] show ?case .
qed

lemma sound_newPool: "sound newPool"
  by (simp add: sound_def insts_def newPool_def)

lemma map_entry_marks:
  "distinct (map (\<lambda>(i, b). inst b) al) \<Longrightarrow> map_of al k = Some v \<Longrightarrow>
   (i, b) \<in> set (AList.map_entry k (\<lambda>b. b\<lparr>isHealthy := False\<rparr>) al) \<Longrightarrow>
   inst b = inst v \<Longrightarrow> \<not> isHealthy b"
proof (induction al)
  case Nil
  then show ?case by simp
next
  case (Cons x al)
  obtain k' v' where x: "x = (k', v')" by (cases x)
  show ?case
  proof (cases "k' = k")
    case True
    with Cons.prems x have v: "v = v'" by simp
    from Cons.prems(3) True x have "(i, b) = (k, v'\<lparr>isHealthy := False\<rparr>) \<or> (i, b) \<in> set al"
      by simp
    then show ?thesis
    proof
      assume "(i, b) = (k, v'\<lparr>isHealthy := False\<rparr>)"
      then show ?thesis by simp
    next
      assume "(i, b) \<in> set al"
      then have "inst b \<in> (\<lambda>(i, b). inst b) ` set al" by force
      with Cons.prems(1,4) x v show ?thesis by simp
    qed
  next
    case False
    with Cons.prems x have m: "map_of al k = Some v" by simp
    then have "(k, v) \<in> set al" by (rule map_of_SomeD)
    then have iv: "inst v \<in> (\<lambda>(i, b). inst b) ` set al" by force
    from Cons.prems(3) False x have "(i, b) = (k', v')
        \<or> (i, b) \<in> set (AList.map_entry k (\<lambda>b. b\<lparr>isHealthy := False\<rparr>) al)"
      by simp
    then show ?thesis
    proof
      assume "(i, b) = (k', v')"
      with Cons.prems(1,4) x iv show ?thesis by simp
    next
      assume a: "(i, b) \<in> set (AList.map_entry k (\<lambda>b. b\<lparr>isHealthy := False\<rparr>) al)"
      from Cons.prems(1) have "distinct (map (\<lambda>(i, b). inst b) al)" by simp
      from Cons.IH[OF this m a Cons.prems(4)] show ?thesis .
    qed
  qed
qed

lemma disconnect_marks:
  assumes "sound p" and "map_of (browsers p) bid = Some b0"
  shows "marked (inst b0) (handleBrowserDisconnect bid p)"
proof -
  from assms(2) have "(bid, b0) \<in> set (browsers p)" by (rule map_of_SomeD)
  then have "inst b0 \<in> insts p" by (force simp: insts_def)
  with assms(1) have lt: "inst b0 < issued p" by (simp add: sound_def)
  from assms(1) have d: "distinct (map (\<lambda>(i, b). inst b) (browsers p))" by (simp add: sound_def)
  have "\<not> isHealthy b"
    if "(i, b) \<in> set (browsers (handleBrowserDisconnect bid p))" "inst b = inst b0" for i b
    using map_entry_marks[OF d assms(2), of i b] that
    by (simp add: handleBrowserDisconnect_def)
  with lt show ?thesis
    by (auto simp: marked_def handleBrowserDisconnect_def)
qed

subsection \<open>Handles across the events of overlapping calls\<close>

lemma healthCheckBegin_insts:
  "map (\<lambda>(i, b). inst b) (browsers (fst (healthCheckBegin env p))) = map (\<lambda>(i, b). inst b) (browsers p)
   \<and> issued (fst (healthCheckBegin env p)) = issued p"
  by (simp add: healthCheckBegin_def checkConnected_def case_prod_unfold comp_def)

lemma probesSettle_insts:
  "map (\<lambda>(i, b). inst b) (browsers (probesSettle env probing p)) = map (\<lambda>(i, b). inst b) (browsers p)
   \<and> issued (probesSettle env probing p) = issued p"
  by (simp add: probesSettle_def probeSettled_def case_prod_unfold comp_def
      split: driver_result.splits)

lemma same_insts_evolves:
  assumes "map (\<lambda>(i, b). inst b) (browsers p') = map (\<lambda>(i, b). inst b) (browsers p)"
    and "issued p' = issued p"
  shows "evolves False p p'"
proof -
  have "set (map (\<lambda>(i, b). inst b) (browsers p')) = set (map (\<lambda>(i, b). inst b) (browsers p))"
    using assms(1) by (rule arg_cong)
  then have img: "(\<lambda>(i, b). inst b) ` set (browsers p') = (\<lambda>(i, b). inst b) ` set (browsers p)"
    by (simp only: set_map)
  show ?thesis
    unfolding evolves_def
  proof (intro conjI ballI)
    show "issued p \<le> issued p'" by (simp only: assms(2))
  next
    fix x assume x: "x \<in> set (browsers p')"
    obtain i' b' where xe: "x = (i', b')" by (cases x)
    from x xe have "inst b' \<in> (\<lambda>(i, b). inst b) ` set (browsers p')" by force
    with img have "inst b' \<in> (\<lambda>(i, b). inst b) ` set (browsers p)" by (simp only:)
    then obtain y where y: "y \<in> set (browsers p)" "inst b' = (\<lambda>(i, b). inst b) y" by blast
    obtain i0 b0 where ye: "y = (i0, b0)" by (cases y)
    from y ye have "(i0, b0) \<in> set (browsers p)" "inst b0 = inst b'" by simp_all
    then have "\<exists>(i, b) \<in> set (browsers p). inst b = inst b' \<and> (False \<longrightarrow> isHealthy b' \<longrightarrow> isHealthy b)"
      by blast
    with xe show "case x of (i', b') \<Rightarrow>
         (issued p \<le> inst b' \<and> inst b' < issued p') \<or>
         (\<exists>(i, b) \<in> set (browsers p). inst b = inst b' \<and> (False \<longrightarrow> isHealthy b' \<longrightarrow> isHealthy b))"
      by simp
  qed
qed

lemma same_insts_sound:
  assumes "map (\<lambda>(i, b). inst b) (browsers p') = map (\<lambda>(i, b). inst b) (browsers p)"
    and "issued p' = issued p" and "sound p"
  shows "sound p'"
proof -
  have "set (map (\<lambda>(i, b). inst b) (browsers p')) = set (map (\<lambda>(i, b). inst b) (browsers p))"
    using assms(1) by (rule arg_cong)
  then have "insts p' = insts p" by (simp only: set_map insts_def)
  with assms show ?thesis by (simp add: sound_def)
qed

lemma browserDeleted_browsers:
  "browsers (browserDeleted bid p) = filter (\<lambda>(k, b). k \<noteq> bid) (browsers p)
   \<and> issued (browserDeleted bid p) = issued p"
  by (auto simp: browserDeleted_def AList.delete_eq intro!: filter_cong)

lemma handleStep_evolves: "evolves False p (snd (handleStep cfg ev p))"
proof (cases ev)
  case Scans
  then show ?thesis by (simp add: evolves_refl)
next
  case (Launched t l)
  obtain r p' where c: "createBrowser t l p = (r, p')" by (cases "createBrowser t l p")
  from createBrowser_evolves[OF c, of False] c Launched show ?thesis by (cases r) simp_all
next
  case DriverIssues
  then show ?thesis by (simp add: evolves_refl)
next
  case (CheckBegins env)
  with healthCheckBegin_insts[of env p] show ?thesis by (simp add: same_insts_evolves)
next
  case (ProbesSettle env probing)
  with probesSettle_insts[of env probing p] show ?thesis by (simp add: same_insts_evolves)
next
  case (BrowserDeleted bid)
  then show ?thesis by (simp add: evolves_subset browserDeleted_browsers)
next
  case (Disconnects bid)
  then show ?thesis by (simp add: handleBrowserDisconnect_evolves)
qed

lemma handleStep_sound:
  assumes "sound p"
  shows "sound (snd (handleStep cfg ev p))"
proof (cases ev)
  case Scans
  with assms show ?thesis by simp
next
  case (Launched t l)
  obtain r p' where c: "createBrowser t l p = (r, p')" by (cases "createBrowser t l p")
  from createBrowser_sound[OF c assms] c Launched show ?thesis by (cases r) simp_all
next
  case DriverIssues
  with assms show ?thesis by (simp add: sound_same)
next
  case (CheckBegins env)
  with healthCheckBegin_insts[of env p] assms show ?thesis by (simp add: same_insts_sound)
next
  case (ProbesSettle env probing)
  with probesSettle_insts[of env probing p] assms show ?thesis by (simp add: same_insts_sound)
next
  case (BrowserDeleted bid)
  from assms have "distinct (map (\<lambda>(i, b). inst b) (filter (\<lambda>(k, b). k \<noteq> bid) (browsers p)))"
    by (simp add: sound_def distinct_map_filter)
  moreover from assms have "\<forall>r \<in> insts (browserDeleted bid p). r < issued (browserDeleted bid p)"
    by (auto simp: sound_def insts_def browserDeleted_browsers)
  ultimately show ?thesis using BrowserDeleted by (simp add: sound_def browserDeleted_browsers)
next
  case (Disconnects bid)
  with assms show ?thesis by (simp add: handleBrowserDisconnect_sound)
qed

lemma handleStep_returns:
  assumes "handleStep cfg ev p = (Some j, p')"
  shows "(\<exists>(i, b) \<in> set (browsers p'). inst b = j \<and> isHealthy b)
       \<and> ((ev = Scans \<and> p' = p) \<or> (\<exists>t l. ev = Launched t l \<and> j = issued p))"
proof (cases ev)
  case Scans
  with assms findAvailable_Some[of cfg "browsers p" j] show ?thesis by auto
next
  case (Launched t l)
  with assms have c: "createBrowser t l p = (Inr j, p')"
    by (auto split: prod.splits sum.splits)
  let ?b = "\<lparr>browserId = t, inst = issued p, contexts = [], isHealthy = True\<rparr>"
  from createBrowser_Inr[OF c] have j: "j = issued p"
    and b: "browsers p' = AList.update t ?b (browsers p)" by simp_all
  from update_member[of t ?b "browsers p"] b have "(t, ?b) \<in> set (browsers p')" by simp
  moreover have "inst ?b = j \<and> isHealthy ?b" using j by simp
  ultimately have "\<exists>(i, b) \<in> set (browsers p'). inst b = j \<and> isHealthy b" by blast
  with Launched j show ?thesis by simp
qed (use assms in auto)

lemma handleStep_skips_marked:
  assumes "marked r p"
  shows "fst (handleStep cfg ev p) \<noteq> Some r"
proof
  assume a: "fst (handleStep cfg ev p) = Some r"
  then have h: "handleStep cfg ev p = (Some r, snd (handleStep cfg ev p))"
    by (cases "handleStep cfg ev p") simp
  from handleStep_returns[OF h]
  have "(\<exists>(i, b) \<in> set (browsers p). inst b = r \<and> isHealthy b) \<or> r = issued p"
    by auto
  then show False
  proof
    assume "\<exists>(i, b) \<in> set (browsers p). inst b = r \<and> isHealthy b"
    with assms show False by (auto simp: marked_def)
  next
    assume "r = issued p"
    with assms show False by (simp add: marked_def)
  qed
qed

lemma probesSettle_members:
  assumes "(i, b') \<in> set (browsers (probesSettle env probing p))"
  shows "\<exists>b. (i, b) \<in> set (browsers p) \<and> inst b' = inst b
     \<and> (if (i, inst b) \<in> set probing then isHealthy b' = (roundTrip (probeOf env (inst b)) = Done)
        else isHealthy b' = isHealthy b)"
  using assms
  by (auto simp: probesSettle_def probeSettled_def split: driver_result.splits)

lemma healthCheckBegin_members:
  assumes "(i, b') \<in> set (browsers (fst (healthCheckBegin env p)))"
  shows "\<exists>b. (i, b) \<in> set (browsers p) \<and> inst b' = inst b
     \<and> isHealthy b' = (isHealthy b \<and> connected (probeOf env (inst b)))"
  using assms
  by (auto simp: healthCheckBegin_def checkConnected_def)

lemma handleStep_marked:
  assumes "marked r p" and "\<not> revives r ev"
  shows "marked r (snd (handleStep cfg ev p))"
proof (cases ev)
  case (ProbesSettle env probing)
  have "\<not> isHealthy b'" if m: "(i, b') \<in> set (browsers (probesSettle env probing p))"
    and r: "inst b' = r" for i b'
  proof -
    from probesSettle_members[OF m] obtain b where
      b: "(i, b) \<in> set (browsers p)" "inst b' = inst b"
      and h: "if (i, inst b) \<in> set probing
              then isHealthy b' = (roundTrip (probeOf env (inst b)) = Done)
              else isHealthy b' = isHealthy b"
      by blast
    from assms(1) b r have nb: "\<not> isHealthy b" by (auto simp: marked_def)
    show ?thesis
    proof (cases "(i, inst b) \<in> set probing")
      case True
      with b r have "r \<in> snd ` set probing" by force
      with assms(2) ProbesSettle have "roundTrip (probeOf env r) \<noteq> Done" by simp
      with True h b r show ?thesis by simp
    next
      case False
      with h nb show ?thesis by simp
    qed
  qed
  with assms(1) ProbesSettle probesSettle_insts[of env probing p] show ?thesis
    by (auto simp: marked_def)
next
  case (CheckBegins env)
  have "\<not> isHealthy b'" if m: "(i, b') \<in> set (browsers (fst (healthCheckBegin env p)))"
    and r: "inst b' = r" for i b'
  proof -
    from healthCheckBegin_members[OF m] obtain b where
      "(i, b) \<in> set (browsers p)" "inst b' = inst b" "isHealthy b' \<longrightarrow> isHealthy b"
      by blast
    with assms(1) r show ?thesis by (auto simp: marked_def)
  qed
  with assms(1) CheckBegins healthCheckBegin_insts[of env p] show ?thesis
    by (auto simp: marked_def)
next
  case Scans
  with assms show ?thesis by simp
next
  case (Launched t l)
  obtain res p' where c: "createBrowser t l p = (res, p')" by (cases "createBrowser t l p")
  from evolves_marked[OF createBrowser_evolves[OF c, of True] assms(1)] c Launched
  show ?thesis by (cases res) simp_all
next
  case DriverIssues
  with assms show ?thesis by (simp add: marked_def)
next
  case (BrowserDeleted bid)
  with assms show ?thesis by (auto simp: marked_def browserDeleted_browsers)
next
  case (Disconnects bid)
  with evolves_marked[OF handleBrowserDisconnect_evolves[of True p bid] assms(1)]
  show ?thesis by simp
qed

lemma handleRun_retired:
  "retired r p \<Longrightarrow> r \<notin> set (fst (handleRun cfg evs p)) \<and> retired r (snd (handleRun cfg evs p))"
proof (induction evs arbitrary: p)
  case Nil
  then show ?case by simp
next
  case (Cons ev evs)
  let ?p1 = "snd (handleStep cfg ev p)"
  from evolves_retired[OF handleStep_evolves Cons.prems] have r1: "retired r ?p1" .
  from handleStep_skips_marked[OF retired_marked[OF Cons.prems], of cfg ev]
  have "fst (handleStep cfg ev p) \<noteq> Some r" .
  with Cons.IH[OF r1] show ?case
    by (auto split: prod.splits option.splits)
qed

lemma handleRun_marked:
  "marked r p \<Longrightarrow> list_all (\<lambda>ev. \<not> revives r ev) evs \<Longrightarrow>
     r \<notin> set (fst (handleRun cfg evs p)) \<and> marked r (snd (handleRun cfg evs p))"
proof (induction evs arbitrary: p)
  case Nil
  then show ?case by simp
next
  case (Cons ev evs)
  let ?p1 = "snd (handleStep cfg ev p)"
  from Cons.prems(2) have n: "\<not> revives r ev" and rest: "list_all (\<lambda>ev. \<not> revives r ev) evs"
    by simp_all
  from handleStep_marked[OF Cons.prems(1) n] have m1: "marked r ?p1" .
  from handleStep_skips_marked[OF Cons.prems(1), of cfg ev]
  have "fst (handleStep cfg ev p) \<noteq> Some r" .
  with Cons.IH[OF m1 rest] show ?case
    by (auto split: prod.splits option.splits)
qed

lemma handleRun_sound: "sound p \<Longrightarrow> sound (snd (handleRun cfg evs p))"
proof (induction evs arbitrary: p)
  case Nil
  then show ?case by simp
next
  case (Cons ev evs)
  from Cons.IH[OF handleStep_sound[OF Cons.prems, of cfg ev]] show ?case
    by (auto split: prod.splits)
qed

lemma probe_failure_marks:
  assumes "sound p" and "(bid, b0) \<in> set (browsers p)" and "(bid, inst b0) \<in> set probing"
    and "roundTrip (probeOf env (inst b0)) \<noteq> Done"
  shows "marked (inst b0) (probesSettle env probing p)"
proof -
  from assms(2) have "inst b0 \<in> insts p" by (force simp: insts_def)
  with assms(1) have lt: "inst b0 < issued p" by (simp add: sound_def)
  from assms(1) have d: "distinct (map (\<lambda>(i, b). inst b) (browsers p))" by (simp add: sound_def)
  have "\<not> isHealthy b'" if m: "(i, b') \<in> set (browsers (probesSettle env probing p))"
    and r: "inst b' = inst b0" for i b'
  proof -
    from probesSettle_members[OF m] obtain b where
      b: "(i, b) \<in> set (browsers p)" "inst b' = inst b"
      and h: "if (i, inst b) \<in> set probing
              then isHealthy b' = (roundTrip (probeOf env (inst b)) = Done)
              else isHealthy b' = isHealthy b"
      by blast
    from d assms(2) b r have "(i, b) = (bid, b0)"
      by (metis (mono_tags, lifting) case_prod_conv distinct_map inj_onD)
    with h assms(3,4) show ?thesis by simp
  qed
  with lt probesSettle_insts[of env probing p] show ?thesis
    by (auto simp: marked_def)
qed

lemma disconnected_check_marks:
  assumes "sound p" and "(bid, b0) \<in> set (browsers p)"
    and "\<not> connected (probeOf env (inst b0))"
  shows "marked (inst b0) (fst (healthCheckBegin env p))"
proof -
  from assms(2) have "inst b0 \<in> insts p" by (force simp: insts_def)
  with assms(1) have lt: "inst b0 < issued p" by (simp add: sound_def)
  have "\<not> isHealthy b'" if m: "(i, b') \<in> set (browsers (fst (healthCheckBegin env p)))"
    and r: "inst b' = inst b0" for i b'
  proof -
    from healthCheckBegin_members[OF m] obtain b where
      "(i, b) \<in> set (browsers p)" "inst b' = inst b"
      "isHealthy b' = (isHealthy b \<and> connected (probeOf env (inst b)))"
      by blast
    with r assms(3) show ?thesis by simp
  qed
  with lt healthCheckBegin_insts[of env p] show ?thesis
    by (auto simp: marked_def)
qed

text \<open>
  C7, as the code has it, for every interleaving of the calls of the pool.
  \<^item> Every instance that a scanning loop or \<open>createBrowser\<close> returns is held, at that
    moment, by a handle of the pool with \<open>isHealthy\<close> true; so is the instance that a call
    of \<open>getAvailableBrowser\<close> returns, and the one that \<open>getPage\<close> binds to the session it
    registers.
  \<^item> An instance whose handle has been deleted from the pool is never returned again,
    whatever events follow.
  \<^item> An instance whose every handle is marked unhealthy is not returned by any of the
    events that follow, as long as none of them is the settling of a probe of that
    instance whose round trip completed.
  \<^item> In a pool whose handles hold distinct instances given out by the driver, a handle
    is marked unhealthy in this sense when the driver reports it disconnected at the
    start of a health check, when its probe fails, and on its disconnect signal; its
    instance is gone from the pool when the handle is deleted, and after a run of
    \<open>performHealthCheck\<close> that no other call overlaps and that finds the handle unhealthy.
  \<^item> The new pool is such a pool, and events and operations keep it such.
\<close>

theorem unhealthy_handles_are_never_leased:
  "(handleStep cfg ev p = (Some j, p1) \<longrightarrow>
      (\<exists>(i, b) \<in> set (browsers p1). inst b = j \<and> isHealthy b))
   \<and> (getAvailableBrowser cfg env p = (Inr j', t, p2) \<longrightarrow>
      (\<exists>(i, b) \<in> set (browsers p2). inst b = j' \<and> isHealthy b))
   \<and> (getPage cfg sid env' p = (Inr pg, p3) \<longrightarrow>
      (\<exists>s. map_of (sessions p3) sid = Some s \<and> sPage s = pg
          \<and> (\<exists>(i, b) \<in> set (browsers p3). inst b = sBrowser s \<and> isHealthy b)))
   \<and> (retired r p \<longrightarrow> r \<notin> set (fst (handleRun cfg evs p)))
   \<and> (marked r p \<and> list_all (\<lambda>ev. \<not> revives r ev) evs \<longrightarrow>
        r \<notin> set (fst (handleRun cfg evs p)))
   \<and> (sound p \<and> (bid, b0) \<in> set (browsers p) \<longrightarrow>
        (\<not> connected (probeOf henv (inst b0)) \<longrightarrow>
           marked (inst b0) (fst (healthCheckBegin henv p)))
        \<and> ((bid, inst b0) \<in> set probing \<and> roundTrip (probeOf henv (inst b0)) \<noteq> Done \<longrightarrow>
           marked (inst b0) (probesSettle henv probing p))
        \<and> (map_of (browsers p) bid = Some b0 \<longrightarrow>
           marked (inst b0) (handleBrowserDisconnect bid p))
        \<and> retired (inst b0) (browserDeleted bid p)
        \<and> (\<not> healthyVerdict (probeOf henv (inst b0))
             \<and> performHealthCheck cfg henv p = Some (res, p4) \<longrightarrow>
           retired (inst b0) p4))
   \<and> sound newPool
   \<and> (sound p \<longrightarrow> sound (snd (handleRun cfg evs p)))
   \<and> (sound p \<and> poolRun cfg ops p = Some p5 \<longrightarrow> sound p5)"
proof (intro conjI impI)
  assume "handleStep cfg ev p = (Some j, p1)"
  from handleStep_returns[OF this]
  show "\<exists>(i, b) \<in> set (browsers p1). inst b = j \<and> isHealthy b" by blast
next
  assume "getAvailableBrowser cfg env p = (Inr j', t, p2)"
  then show "\<exists>(i, b) \<in> set (browsers p2). inst b = j' \<and> isHealthy b"
    by (rule getAvailableBrowser_healthy)
next
  assume "getPage cfg sid env' p = (Inr pg, p3)"
  then show "\<exists>s. map_of (sessions p3) sid = Some s \<and> sPage s = pg
          \<and> (\<exists>(i, b) \<in> set (browsers p3). inst b = sBrowser s \<and> isHealthy b)"
    by (rule getPage_healthy)
next
  assume "retired r p"
  from handleRun_retired[OF this] show "r \<notin> set (fst (handleRun cfg evs p))" by blast
next
  assume "marked r p \<and> list_all (\<lambda>ev. \<not> revives r ev) evs"
  then have "marked r p" "list_all (\<lambda>ev. \<not> revives r ev) evs" by simp_all
  from handleRun_marked[OF this] show "r \<notin> set (fst (handleRun cfg evs p))" by blast
next
  assume a: "sound p \<and> (bid, b0) \<in> set (browsers p)"
  then have s: "sound p" and m: "(bid, b0) \<in> set (browsers p)" by simp_all
  {
    assume "\<not> connected (probeOf henv (inst b0))"
    with s m show "marked (inst b0) (fst (healthCheckBegin henv p))"
      by (rule disconnected_check_marks)
  }
  {
    assume "(bid, inst b0) \<in> set probing \<and> roundTrip (probeOf henv (inst b0)) \<noteq> Done"
    then have "(bid, inst b0) \<in> set probing" "roundTrip (probeOf henv (inst b0)) \<noteq> Done"
      by simp_all
    with s m show "marked (inst b0) (probesSettle henv probing p)"
      by (rule probe_failure_marks)
  }
  {
    assume "map_of (browsers p) bid = Some b0"
    with s show "marked (inst b0) (handleBrowserDisconnect bid p)"
      by (rule disconnect_marks)
  }
  from m have "inst b0 \<in> insts p" by (force simp: insts_def)
  with s have lt: "inst b0 < issued p" by (simp add: sound_def)
  from s have d: "distinct (map (\<lambda>(i, b). inst b) (browsers p))" by (simp add: sound_def)
  have "inst b0 \<notin> insts (browserDeleted bid p)"
  proof
    assume "inst b0 \<in> insts (browserDeleted bid p)"
    then obtain k b where kb: "(k, b) \<in> set (browsers p)" "k \<noteq> bid" "inst b = inst b0"
      by (auto simp: insts_def browserDeleted_browsers)
    with d m have "(k, b) = (bid, b0)"
      by (metis (mono_tags, lifting) case_prod_conv distinct_map inj_onD)
    with kb show False by simp
  qed
  with lt show "retired (inst b0) (browserDeleted bid p)"
    by (simp add: retired_def browserDeleted_browsers)
  {
    assume "\<not> healthyVerdict (probeOf henv (inst b0))
             \<and> performHealthCheck cfg henv p = Some (res, p4)"
    then have "performHealthCheck cfg henv p = Some (res, p4)"
      "\<not> healthyVerdict (probeOf henv (inst b0))" by simp_all
    from performHealthCheck_retires[OF this(1) lt this(2)]
    show "retired (inst b0) p4" .
  }
next
  show "sound newPool" by (rule sound_newPool)
next
  assume "sound p"
  then show "sound (snd (handleRun cfg evs p))" by (rule handleRun_sound)
next
  assume "sound p \<and> poolRun cfg ops p = Some p5"
  then have "poolRun cfg ops p = Some p5" "sound p" by simp_all
  then show "sound p5" by (rule poolRun_sound)
qed

lemmas handle_eval =
  handleBrowserDisconnect_def browserDeleted_def sound_def insts_def marked_def retired_def
  healthyVerdict_def

theorem unhealthy_handles_are_never_leased_witness:
  "sound (onePage examplePoolConfig)
   \<and> map (\<lambda>(i, b). (i, inst b, isHealthy b)) (browsers (onePage examplePoolConfig))
       = [(1000, 0, True)]
   \<and> handleStep examplePoolConfig Scans (onePage examplePoolConfig)
       = (Some 0, onePage examplePoolConfig)
   \<and> fst (getAvailableBrowser examplePoolConfig (okAcquire 3000) (onePage examplePoolConfig))
       = Inr 0
   \<and> getPage examplePoolConfig ''s1'' (okAcquire 1000) newPool
       = (Inr 2, onePage examplePoolConfig)
   \<and> poolRun examplePoolConfig [GetPage ''s1'' (okAcquire 1000)] newPool
       = Some (onePage examplePoolConfig)
   \<and> \<not> healthyVerdict (probeOf failingCheck 0)
   \<and> performHealthCheck examplePoolConfig failingCheck (onePage examplePoolConfig)
       = Some (Inr (), afterFailedCheck)
   \<and> retired 0 afterFailedCheck
   \<and> map (\<lambda>(i, b). inst b) (browsers afterFailedCheck) = [3, 4]
   \<and> roundTrip (probeOf failingCheck 0) \<noteq> Done
   \<and> marked 0 (probesSettle failingCheck [(1000, 0)] (onePage examplePoolConfig))
   \<and> marked 0 (handleBrowserDisconnect 1000 (onePage examplePoolConfig))
   \<and> list_all (\<lambda>ev. \<not> revives 0 ev)
        [Scans, CheckBegins okCheck, ProbesSettle failingCheck [(1000, 0)], Scans,
         Launched 3000 Done, Scans]
   \<and> fst (handleRun examplePoolConfig
        [Scans, CheckBegins okCheck, ProbesSettle failingCheck [(1000, 0)], Scans,
         Launched 3000 Done, Scans]
        (handleBrowserDisconnect 1000 (onePage examplePoolConfig))) = [3, 3]
   \<and> retired 0 (browserDeleted 1000 (onePage examplePoolConfig))
   \<and> fst (handleRun examplePoolConfig
        [Scans, ProbesSettle okCheck [(1000, 0)], Scans, Launched 1000 Done, Scans]
        (browserDeleted 1000 (onePage examplePoolConfig))) = [3, 3]"
  using
    unhealthy_handles_are_never_leased
      [where cfg = examplePoolConfig and ev = Scans and p = "onePage examplePoolConfig"
         and j = 0 and ?p1.0 = "onePage examplePoolConfig" and env = "okAcquire 3000"
         and j' = 0 and t = 3000 and ?p2.0 = "onePage examplePoolConfig"
         and bid = 1000 and ?b0.0 = "the (map_of (browsers (onePage examplePoolConfig)) 1000)"
         and henv = failingCheck and probing = "[(1000, 0)]"
         and res = "Inr ()" and ?p4.0 = afterFailedCheck]
    unhealthy_handles_are_never_leased
      [where cfg = examplePoolConfig and p = newPool and sid = "''s1''"
         and env' = "okAcquire 1000" and pg = 2 and ?p3.0 = "onePage examplePoolConfig"
         and ops = "[GetPage ''s1'' (okAcquire 1000)]" and ?p5.0 = "onePage examplePoolConfig"]
    unhealthy_handles_are_never_leased
      [where cfg = examplePoolConfig
         and p = "handleBrowserDisconnect 1000 (onePage examplePoolConfig)" and r = 0
         and evs = "[Scans, CheckBegins okCheck, ProbesSettle failingCheck [(1000, 0)], Scans,
                     Launched 3000 Done, Scans]"]
    unhealthy_handles_are_never_leased
      [where cfg = examplePoolConfig
         and p = "browserDeleted 1000 (onePage examplePoolConfig)" and r = 0
         and evs = "[Scans, ProbesSettle okCheck [(1000, 0)], Scans, Launched 1000 Done, Scans]"]
  by (simp add: afterFailedCheck_def pool_eval handle_eval)

text \<open>
  C7 as stated fails. The only handle of a pool gets its disconnect signal and is marked
  unhealthy; an acquire made then launches a new browser. A health check follows during
  which the driver reports the browser connected and the round trip completes:
  \<open>checkBrowserHealth\<close> sets \<open>isHealthy\<close> back to \<open>true\<close>, the handle stays in the pool, and
  the next acquire returns its instance. Likewise for a handle whose probe failed, when
  the probe of a second, overlapping health check completes before the first check
  removes the handle: the scan that follows returns the instance.
\<close>

theorem revived_handle_is_leased_again:
  "map (\<lambda>(i, b). (i, inst b, isHealthy b))
       (browsers (handleBrowserDisconnect 1000 (onePage examplePoolConfig)))
     = [(1000, 0, False)]
   \<and> fst (getAvailableBrowser examplePoolConfig (okAcquire 1500)
        (handleBrowserDisconnect 1000 (onePage examplePoolConfig))) = Inr 3
   \<and> performHealthCheck examplePoolConfig okCheck
        (handleBrowserDisconnect 1000 (onePage examplePoolConfig)) = Some (Inr (), afterRevival)
   \<and> map (\<lambda>(i, b). (i, inst b, isHealthy b)) (browsers afterRevival)
       = [(1000, 0, True), (2000, 3, True)]
   \<and> fst (getAvailableBrowser examplePoolConfig (okAcquire 3000) afterRevival) = Inr 0
   \<and> fst (handleRun examplePoolConfig
        [CheckBegins failingCheck, CheckBegins okCheck, ProbesSettle failingCheck [(1000, 0)],
         Scans, ProbesSettle okCheck [(1000, 0)], Scans]
        (onePage examplePoolConfig)) = [0]"
  by (simp add: afterRevival_def pool_eval handle_eval)

subsection \<open>The periodic timer\<close>

lemma healthCheckBegin_timer:
  "healthCheckTimer (fst (healthCheckBegin env p)) = healthCheckTimer p"
  by (simp add: healthCheckBegin_def)

lemma timerCallback_running:
  assumes "healthCheckTimer (mpool m) = TimerRunning"
  shows "inProgress (timerCallback env m) = inProgress m @ [snd (healthCheckBegin env (mpool m))]
       \<and> mpool (timerCallback env m) = fst (healthCheckBegin env (mpool m))
       \<and> healthCheckTimer (mpool (timerCallback env m)) = TimerRunning"
  using assms healthCheckBegin_timer[of env "mpool m"]
  by (auto simp: timerCallback_def split: prod.splits)

lemma fold_timerCallback_running:
  "healthCheckTimer (mpool m) = TimerRunning \<Longrightarrow>
     length (inProgress (fold timerCallback envs m)) = length (inProgress m) + length envs
     \<and> healthCheckTimer (mpool (fold timerCallback envs m)) = TimerRunning"
proof (induction envs arbitrary: m)
  case Nil
  then show ?case by simp
next
  case (Cons env envs)
  from timerCallback_running[OF Cons.prems, of env]
  have l: "length (inProgress (timerCallback env m)) = Suc (length (inProgress m))"
    by simp
  from timerCallback_running[OF Cons.prems, of env]
  have t: "healthCheckTimer (mpool (timerCallback env m)) = TimerRunning"
    by blast
  from Cons.IH[OF t] l show ?case by simp
qed

text \<open>
  C5, as the code has it. While the interval timer is running, every firing of the timer
  starts a run of \<open>performHealthCheck\<close>, whether or not earlier runs are still in progress:
  the callback checks the connection of every handle and adds the run, with its probes in
  flight, to the runs in progress. No run is skipped: after any number of firings with no
  run finishing in between, that many more runs are in progress.
\<close>

theorem every_timer_tick_starts_a_run:
  assumes "healthCheckTimer (mpool m) = TimerRunning"
  shows "inProgress (timerCallback env m) = inProgress m @ [snd (healthCheckBegin env (mpool m))]
       \<and> mpool (timerCallback env m) = fst (healthCheckBegin env (mpool m))
       \<and> length (inProgress (fold timerCallback envs m)) = length (inProgress m) + length envs"
  using timerCallback_running[OF assms, of env] fold_timerCallback_running[OF assms, of envs]
  by simp

lemmas monitor_eval =
  initialMonitor_def initialize_def startHealthMonitoring_def okLaunches_def
  timerCallback_def runCompletes_def replenish.simps

theorem every_timer_tick_starts_a_run_witness:
  "healthCheckTimer (mpool initialMonitor) = TimerRunning
   \<and> inProgress initialMonitor = []
   \<and> inProgress (timerCallback okCheck initialMonitor) = [[(500, 0), (501, 1)]]
   \<and> length (inProgress (fold timerCallback [okCheck, failingCheck, okCheck] initialMonitor)) = 3"
  using every_timer_tick_starts_a_run
    [of initialMonitor okCheck "[okCheck, failingCheck, okCheck]"]
  by (simp add: monitor_eval pool_eval numeral_2_eq_2)

text \<open>
  C5 as stated fails. In an initialized pool the timer fires, and fires again before the
  first run has finished: the second callback starts a second run, and two runs are in
  progress at once, each with probes of the same two browsers in flight. When the first
  run goes on to its end, the second is still in progress.
\<close>

theorem second_run_starts_while_first_in_progress:
  "healthCheckTimer (mpool initialMonitor) = TimerRunning
   \<and> inProgress initialMonitor = []
   \<and> inProgress (timerCallback okCheck initialMonitor) = [[(500, 0), (501, 1)]]
   \<and> inProgress (timerCallback okCheck (timerCallback okCheck initialMonitor))
       = [[(500, 0), (501, 1)], [(500, 0), (501, 1)]]
   \<and> \<not> length (inProgress (timerCallback okCheck (timerCallback okCheck initialMonitor))) \<le> 1
   \<and> map_option inProgress
        (runCompletes examplePoolConfig okCheck
           (timerCallback okCheck (timerCallback okCheck initialMonitor)))
       = Some [[(500, 0), (501, 1)]]"
  by (simp add: monitor_eval pool_eval numeral_2_eq_2)

end
